theory Spec2Isabelle
  imports Complex_Main "HOL-Library.AList"
begin

section \<open>Data model of SupMat\_A1\_A2.py\<close>

text \<open>
  Person ids, stationary-mote (room) ids and timestamps are Python integers.
  Python floats (signal powers, kernel weights) are idealised as real numbers:
  no rounding, no overflow, no NaN.
\<close>

type_synonym person = int
type_synonym room = int
type_synonym time = int

text \<open>The exceptions the modelled code can raise.\<close>

datatype error = KeyError | ZeroDivisionError | NameError

text \<open>
  A value stored in \<open>self.locations[i][t]\<close> and held by the variables \<open>r1\<close>, \<open>r2\<close> of
  \<open>smooth_location\<close>: an integer room id, or Python's \<open>None\<close>.
\<close>

datatype pyval = PyNone | PyInt int

record Signal_mob =
  mob_global_time :: time
  mob_receiver_id :: person
  mob_sender_id :: person

record Signal_sta =
  sta_global_time :: time
  sta_receiver_id :: person
  sta_sender_id :: room
  rssi :: int
  power :: real

record Signals =
  global_time :: time
  receiver_id :: person
  mobile :: "Signal_mob list"
  stationary :: "Signal_sta list"

record Receiver_sequence =
  seq_receiver_id :: person
  sequence :: "time \<rightharpoonup> Signals"

record AllData =
  sequences :: "person \<rightharpoonup> Receiver_sequence"
  locations :: "person \<rightharpoonup> (time \<rightharpoonup> pyval)"

text \<open>A kernel entry is (relative timestamp, relative weight); a pattern is a tuple of booleans.\<close>

type_synonym kernel = "(int \<times> real) list"
type_synonym pattern = "bool list"

section \<open>Signal\_sta: conversion of readings\<close>

text \<open>\<open>Signal_sta.convert_reading_to_rssi\<close>; \<open>^\<close> is Python's bitwise XOR on unbounded integers.\<close>

definition convert_reading_to_rssi :: "int \<Rightarrow> int" where
  "convert_reading_to_rssi reading =
     (if reading < 128 then reading - 45
      else -1 * (Bit_Operations.xor (reading - 1) 255) - 45)"

text \<open>\<open>Signal_sta.convert_rssi_to_power\<close>: \<open>10.0**(float(rssi)/10.0)\<close>.\<close>

definition convert_rssi_to_power :: "int \<Rightarrow> real" where
  "convert_rssi_to_power r = 10 powr (real_of_int r / 10)"

text \<open>\<open>Signal_sta.__init__\<close>.\<close>

definition Signal_sta_init :: "time \<Rightarrow> person \<Rightarrow> room \<Rightarrow> int \<Rightarrow> Signal_sta" where
  "Signal_sta_init gt rid sid signal_strength =
     (let r = convert_reading_to_rssi signal_strength
      in \<lparr>sta_global_time = gt, sta_receiver_id = rid, sta_sender_id = sid,
          rssi = r, power = convert_rssi_to_power r\<rparr>)"

section \<open>Signals and Receiver\_sequence: queries\<close>

text \<open>\<open>Signals.return_neighbor_ids\<close>: the sender ids of the mobile signals, in list order.\<close>

definition Signals_return_neighbor_ids :: "Signals \<Rightarrow> person list" where
  "Signals_return_neighbor_ids s = map mob_sender_id (mobile s)"

text \<open>
  \<open>Signals.return_nearest_rooms\<close>: a dict from sender id to (power, rssi). Dicts that the
  code iterates over are association lists with distinct keys: a store to a key that is
  present replaces the value in place, a store to a new key appends it. Python 2 leaves
  the iteration order of a dict unspecified; the model iterates in the order of
  insertion. Sums of reals do not depend on that order; the choice among rooms of equal
  signal does, and is stated below for the order in which the dict is iterated.
\<close>

definition Signals_return_nearest_rooms :: "Signals \<Rightarrow> (room \<times> (real \<times> int)) list" where
  "Signals_return_nearest_rooms s =
     foldl (\<lambda>rooms r. AList.update (sta_sender_id r) (power r, rssi r) rooms) [] (stationary s)"

text \<open>\<open>Receiver_sequence.return_neighbor_ids\<close> and \<open>Receiver_sequence.return_nearest_rooms\<close>.\<close>

definition return_neighbor_ids :: "Receiver_sequence \<Rightarrow> time \<Rightarrow> person list" where
  "return_neighbor_ids rs t =
     (case sequence rs t of Some s \<Rightarrow> Signals_return_neighbor_ids s | None \<Rightarrow> [])"

definition return_nearest_rooms :: "Receiver_sequence \<Rightarrow> time \<Rightarrow> (room \<times> (real \<times> int)) list" where
  "return_nearest_rooms rs t =
     (case sequence rs t of Some s \<Rightarrow> Signals_return_nearest_rooms s | None \<Rightarrow> [])"

section \<open>AllData.identify\_location\<close>

text \<open>
  Lines 83 to 88: the dict \<open>contacts\<close>, from each timestamp of the window that has a
  snapshot to the list \<open>[i] + neighbours\<close>. \<open>self.sequences[i]\<close> raises KeyError when the
  receiver has no sequence.
\<close>

fun collect_contacts ::
  "AllData \<Rightarrow> person \<Rightarrow> time \<Rightarrow> kernel \<Rightarrow> (time \<times> person list) list
     \<Rightarrow> error + (time \<times> person list) list" where
  "collect_contacts D i t [] contacts = Inr contacts"
| "collect_contacts D i t (t_w # rest) contacts =
     (case sequences D i of
        None \<Rightarrow> Inl KeyError
      | Some s \<Rightarrow>
          (let t_cur = t + fst t_w in
           if sequence s t_cur \<noteq> None
           then collect_contacts D i t rest
                  (AList.update t_cur (i # return_neighbor_ids s t_cur) contacts)
           else collect_contacts D i t rest contacts))"

text \<open>
  The inner loops at lines 94 to 96 and 102 to 104: the variable \<open>weight\<close> takes the weight
  of the last kernel entry whose offset leads from \<open>t\<close> to \<open>t_cur\<close>, and keeps its previous
  value (\<open>None\<close>: not yet assigned) when there is none.
\<close>

definition find_weight :: "kernel \<Rightarrow> time \<Rightarrow> time \<Rightarrow> real option \<Rightarrow> real option" where
  "find_weight t_w_list t t_cur weight =
     foldl (\<lambda>w t_w. if t_cur - fst t_w = t then Some (snd t_w) else w) weight t_w_list"

text \<open>
  Lines 92 to 97: \<open>w_number_datapoints\<close>. The result carries the variable \<open>weight\<close> too;
  reading it unassigned raises NameError.
\<close>

fun sum_datapoints ::
  "kernel \<Rightarrow> time \<Rightarrow> (time \<times> person list) list \<Rightarrow> real option \<Rightarrow> real
     \<Rightarrow> error + (real \<times> real option)" where
  "sum_datapoints t_w_list t [] weight n = Inr (n, weight)"
| "sum_datapoints t_w_list t (tc # rest) weight n =
     (case find_weight t_w_list t (fst tc) weight of
        None \<Rightarrow> Inl NameError
      | Some w \<Rightarrow> sum_datapoints t_w_list t rest (Some w) (n + real (length (snd tc)) * w))"

text \<open>
  Lines 108 to 114, for one contact: every room of \<open>rooms\<close> adds
  \<open>rooms[r][0] * weight / float(w_number_datapoints)\<close> to \<open>data[t_cur][r]\<close>. The float
  division raises ZeroDivisionError on a zero divisor.
\<close>

fun weigh_rooms ::
  "(room \<times> (real \<times> int)) list \<Rightarrow> real \<Rightarrow> real \<Rightarrow> (room \<times> real) list
     \<Rightarrow> error + (room \<times> real) list" where
  "weigh_rooms [] weight n d = Inr d"
| "weigh_rooms (rp # rooms) weight n d =
     (if n = 0 then Inl ZeroDivisionError
      else
        (let v = fst (snd rp) * weight / n in
         weigh_rooms rooms weight n
           (case map_of d (fst rp) of
              Some old \<Rightarrow> AList.update (fst rp) (old + v) d
            | None \<Rightarrow> AList.update (fst rp) v d)))"

text \<open>
  Lines 106 to 114: the loop over the contacts of one timestamp. \<open>self.sequences[c]\<close>
  raises KeyError when the contact has no sequence.
\<close>

fun weigh_contacts ::
  "AllData \<Rightarrow> time \<Rightarrow> person list \<Rightarrow> real \<Rightarrow> real \<Rightarrow> (room \<times> real) list
     \<Rightarrow> error + (room \<times> real) list" where
  "weigh_contacts D t_cur [] weight n d = Inr d"
| "weigh_contacts D t_cur (c # cs) weight n d =
     (case sequences D c of
        None \<Rightarrow> Inl KeyError
      | Some s \<Rightarrow>
          (case weigh_rooms (return_nearest_rooms s t_cur) weight n d of
             Inl e \<Rightarrow> Inl e
           | Inr d' \<Rightarrow> weigh_contacts D t_cur cs weight n d'))"

text \<open>Lines 99 to 114: the dict \<open>data\<close>, one dict of weighted room signals per timestamp.\<close>

fun weigh_data ::
  "AllData \<Rightarrow> kernel \<Rightarrow> time \<Rightarrow> (time \<times> person list) list \<Rightarrow> real option \<Rightarrow> real
     \<Rightarrow> (time \<times> (room \<times> real) list) list \<Rightarrow> error + (time \<times> (room \<times> real) list) list" where
  "weigh_data D t_w_list t [] weight n data = Inr data"
| "weigh_data D t_w_list t (tc # rest) weight n data =
     (case find_weight t_w_list t (fst tc) weight of
        None \<Rightarrow> Inl NameError
      | Some w \<Rightarrow>
          (case weigh_contacts D (fst tc) (snd tc) w n [] of
             Inl e \<Rightarrow> Inl e
           | Inr d \<Rightarrow> weigh_data D t_w_list t rest (Some w) n (AList.update (fst tc) d data)))"

text \<open>Lines 117 to 122: the partial signals are summed per room into the dict \<open>signals\<close>.\<close>

definition add_signal :: "(room \<times> real) list \<Rightarrow> room \<times> real \<Rightarrow> (room \<times> real) list" where
  "add_signal signals rv =
     AList.update (fst rv)
       ((case map_of signals (fst rv) of None \<Rightarrow> 0 | Some x \<Rightarrow> x) + snd rv) signals"

definition sum_signals :: "(time \<times> (room \<times> real) list) list \<Rightarrow> (room \<times> real) list" where
  "sum_signals data = foldl (\<lambda>signals td. foldl add_signal signals (snd td)) [] data"

text \<open>Lines 83 to 122 together: the aggregated signal per room, in iteration order.\<close>

definition window_signals ::
  "AllData \<Rightarrow> person \<Rightarrow> time \<Rightarrow> kernel \<Rightarrow> error + (room \<times> real) list" where
  "window_signals D i t t_w_list =
     (case collect_contacts D i t t_w_list [] of
        Inl e \<Rightarrow> Inl e
      | Inr contacts \<Rightarrow>
          (case sum_datapoints t_w_list t contacts None 0 of
             Inl e \<Rightarrow> Inl e
           | Inr nw \<Rightarrow>
               (case weigh_data D t_w_list t contacts (snd nw) (fst nw) [] of
                  Inl e \<Rightarrow> Inl e
                | Inr data \<Rightarrow> Inr (sum_signals data))))"

text \<open>Lines 125 to 130: the loop that finds the strongest signal, as (max\_id, max\_signal).\<close>

definition find_strongest :: "(room \<times> real) list \<Rightarrow> room \<times> real" where
  "find_strongest signals =
     foldl (\<lambda>m rs. if snd rs > snd m then rs else m) (0, 0) signals"

text \<open>Lines 125 to 134, with the threshold as a parameter.\<close>

definition select_room :: "real \<Rightarrow> (room \<times> real) list \<Rightarrow> room" where
  "select_room thr signals =
     (let m = find_strongest signals in if snd m < thr then 0 else fst m)"

text \<open>The constant of line 77, \<open>3.16 * (10**-9)\<close>.\<close>

definition THRESHOLD :: real where
  "THRESHOLD = 3.16 * (1 / 10 ^ 9)"

text \<open>
  \<open>identify_location\<close> with the threshold as a parameter: lines 137 to 142 store the room
  at \<open>self.locations[i][t]\<close>, creating the receiver's dict when it is missing, and return it.
  The debugging \<open>print\<close> of line 141 changes no state and is left out.
\<close>

definition identify_location_with ::
  "real \<Rightarrow> AllData \<Rightarrow> person \<Rightarrow> time \<Rightarrow> kernel \<Rightarrow> error + (AllData \<times> room)" where
  "identify_location_with thr D i t t_w_list =
     (case window_signals D i t t_w_list of
        Inl e \<Rightarrow> Inl e
      | Inr signals \<Rightarrow>
          (let max_id = select_room thr signals;
               locs = (case locations D i of None \<Rightarrow> Map.empty | Some m \<Rightarrow> m)
           in Inr (D\<lparr>locations := (locations D)(i \<mapsto> locs(t \<mapsto> PyInt max_id))\<rparr>, max_id)))"

definition identify_location ::
  "AllData \<Rightarrow> person \<Rightarrow> time \<Rightarrow> kernel \<Rightarrow> error + (AllData \<times> room)" where
  "identify_location = identify_location_with THRESHOLD"

text \<open>
  The loop of lines 417 to 418 over a list of timestamps, with the rooms returned.
\<close>

fun identify_range ::
  "real \<Rightarrow> AllData \<Rightarrow> person \<Rightarrow> time list \<Rightarrow> kernel \<Rightarrow> error + (AllData \<times> room list)" where
  "identify_range thr D i [] t_w_list = Inr (D, [])"
| "identify_range thr D i (t # ts) t_w_list =
     (case identify_location_with thr D i t t_w_list of
        Inl e \<Rightarrow> Inl e
      | Inr Dr \<Rightarrow>
          (case identify_range thr (fst Dr) i ts t_w_list of
             Inl e \<Rightarrow> Inl e
           | Inr Drs \<Rightarrow> Inr (fst Drs, snd Dr # snd Drs)))"

section \<open>AllData.smooth\_location\<close>

text \<open>
  Lines 165 to 191: the walk over one pattern from timestamp \<open>tc\<close> on, with the variables
  \<open>r1\<close> and \<open>r2\<close> (\<open>PyNone\<close> when not yet bound). \<open>None\<close> is the walk that sets \<open>flag\<close>;
  a completed walk gives \<open>r1\<close>.
\<close>

fun match_walk :: "(time \<rightharpoonup> pyval) \<Rightarrow> time \<Rightarrow> pattern \<Rightarrow> pyval \<Rightarrow> pyval \<Rightarrow> pyval option" where
  "match_walk loc tc [] r1 r2 = Some r1"
| "match_walk loc tc (b # bs) r1 r2 =
     (case loc tc of
        None \<Rightarrow> None
      | Some cur \<Rightarrow>
          (if b then
             (let r1' = (if r1 = PyNone then cur else r1) in
              if r1' \<noteq> cur then None else match_walk loc (tc + 1) bs r1' r2)
           else
             (let r2' = (if r2 = PyNone then cur else r2) in
              if r2' = r1 then None
              else if r2' \<noteq> cur then None
              else match_walk loc (tc + 1) bs r1 r2')))"

text \<open>Lines 196 to 198: every position labelled False is set to \<open>r1\<close>.\<close>

fun rewrite :: "(time \<rightharpoonup> pyval) \<Rightarrow> time \<Rightarrow> pattern \<Rightarrow> pyval \<Rightarrow> (time \<rightharpoonup> pyval)" where
  "rewrite loc tc [] r1 = loc"
| "rewrite loc tc (b # bs) r1 =
     rewrite (if b then loc else loc(tc \<mapsto> r1)) (tc + 1) bs r1"

text \<open>
  Lines 157 to 201 on the dict \<open>self.locations[i]\<close> (\<open>None\<close> when the receiver has none: the
  first read of a non-empty pattern then raises KeyError; an empty pattern reads nothing
  and counts as found). The first pattern whose walk completes is applied and ends the
  loop.
\<close>

fun smooth_patterns ::
  "(time \<rightharpoonup> pyval) option \<Rightarrow> time \<Rightarrow> pattern list \<Rightarrow> error + ((time \<rightharpoonup> pyval) option \<times> nat)" where
  "smooth_patterns L t [] = Inr (L, 0)"
| "smooth_patterns L t (p # ps) =
     (if p = [] then Inr (L, 1)
      else
        (case L of
           None \<Rightarrow> Inl KeyError
         | Some loc \<Rightarrow>
             (case match_walk loc t p PyNone PyNone of
                None \<Rightarrow> smooth_patterns L t ps
              | Some r1 \<Rightarrow> Inr (Some (rewrite loc t p r1), 1))))"

definition smooth_location ::
  "AllData \<Rightarrow> person \<Rightarrow> time \<Rightarrow> pattern list \<Rightarrow> error + (AllData \<times> nat)" where
  "smooth_location D i t patterns =
     (case smooth_patterns (locations D i) t patterns of
        Inl e \<Rightarrow> Inl e
      | Inr Lc \<Rightarrow> Inr (D\<lparr>locations := (locations D)(i := fst Lc)\<rparr>, snd Lc))"

section \<open>The smoothing loop of the main program\<close>

text \<open>Lines 424 to 426: one pass over the timestamps, counting the corrections.\<close>

fun smooth_pass ::
  "AllData \<Rightarrow> person \<Rightarrow> time list \<Rightarrow> pattern list \<Rightarrow> nat \<Rightarrow> error + (AllData \<times> nat)" where
  "smooth_pass D i [] patterns cnt = Inr (D, cnt)"
| "smooth_pass D i (t # ts) patterns cnt =
     (case smooth_location D i t patterns of
        Inl e \<Rightarrow> Inl e
      | Inr Dc \<Rightarrow> smooth_pass (fst Dc) i ts patterns (cnt + snd Dc))"

text \<open>
  Lines 421 to 427: passes are repeated while the last one made a correction. The loop
  may run forever, which is the value \<open>None\<close>.
\<close>

partial_function (option) smooth_loop ::
  "AllData \<Rightarrow> person \<Rightarrow> time list \<Rightarrow> pattern list \<Rightarrow> (error + AllData) option" where
  "smooth_loop D i ts patterns =
     (case smooth_pass D i ts patterns 0 of
        Inl e \<Rightarrow> Some (Inl e)
      | Inr Dc \<Rightarrow> if snd Dc > 0 then smooth_loop (fst Dc) i ts patterns else Some (Inr (fst Dc)))"

section \<open>Measures and invariants used by the theorems\<close>

text \<open>The number of stored rooms that are not 0: the entries \<open>write_to_files\<close> keeps.\<close>

definition count_assigned :: "room list \<Rightarrow> nat" where
  "count_assigned rs = length (filter (\<lambda>r. r \<noteq> 0) rs)"

text \<open>
  The timestamps at which a room sequence alternates: both \<open>u\<close> and \<open>u + 1\<close> are present
  and hold different values.
\<close>

definition alternations :: "(time \<rightharpoonup> pyval) \<Rightarrow> time set" where
  "alternations seq = {u. seq u \<noteq> None \<and> seq (u + 1) \<noteq> None \<and> seq u \<noteq> seq (u + 1)}"

text \<open>A room sequence as \<open>identify_location\<close> fills it: no entry holds \<open>None\<close>.\<close>

definition rooms_only :: "(time \<rightharpoonup> pyval) \<Rightarrow> bool" where
  "rooms_only seq = (\<forall>u. seq u \<noteq> Some PyNone)"

text \<open>
  A pattern of the kind the main program uses: it starts and ends with True and has a
  False in between. Both \<open>(True,False,True,True)\<close> and \<open>(True,True,False,True)\<close> are such.
\<close>

definition flicker_pattern :: "pattern \<Rightarrow> bool" where
  "flicker_pattern p = (p \<noteq> [] \<and> hd p \<and> last p \<and> False \<in> set p)"

text \<open>
  The invariant of the dict \<open>contacts\<close>: every key is a timestamp of the window, every list
  is non-empty and names only persons that have a sequence.
\<close>

definition good_contacts :: "AllData \<Rightarrow> kernel \<Rightarrow> time \<Rightarrow> (time \<times> person list) list \<Rightarrow> bool" where
  "good_contacts D k t cs =
     (\<forall>tc\<in>set cs. (\<exists>tw\<in>set k. fst tc = t + fst tw) \<and> snd tc \<noteq> [] \<and>
        (\<forall>c\<in>set (snd tc). sequences D c \<noteq> None))"

section \<open>Concrete inputs\<close>

text \<open>
  A \<open>Signals\<close> object with the given neighbour ids and (room, power) pairs. The field
  \<open>rssi\<close>, which \<open>identify_location\<close> never reads, is 0.
\<close>

definition snapshot :: "time \<Rightarrow> person \<Rightarrow> person list \<Rightarrow> (room \<times> real) list \<Rightarrow> Signals" where
  "snapshot tm rid nbs sigs =
     \<lparr>global_time = tm, receiver_id = rid,
      mobile = map (\<lambda>n. \<lparr>mob_global_time = tm, mob_receiver_id = rid, mob_sender_id = n\<rparr>) nbs,
      stationary = map (\<lambda>rp. \<lparr>sta_global_time = tm, sta_receiver_id = rid,
                     sta_sender_id = fst rp, rssi = 0, power = snd rp\<rparr>) sigs\<rparr>"

text \<open>
  Receiver 1 sees mote 2 and beacon 10050 at power 5e-9 at time 100; mote 2 sees beacon
  10050 at power 1e-9.
\<close>

definition D_example :: AllData where
  "D_example =
     \<lparr>sequences =
        [1 \<mapsto> \<lparr>seq_receiver_id = 1,
                 sequence = [100 \<mapsto> snapshot 100 1 [2] [(10050, 5 / 10 ^ 9)]]\<rparr>,
         2 \<mapsto> \<lparr>seq_receiver_id = 2,
                 sequence = [100 \<mapsto> snapshot 100 2 [] [(10050, 1 / 10 ^ 9)]]\<rparr>],
      locations = [1 \<mapsto> Map.empty, 2 \<mapsto> Map.empty]\<rparr>"

text \<open>Receiver 1 alone sees two beacons at the same power, above the threshold.\<close>

definition D_tie :: AllData where
  "D_tie =
     \<lparr>sequences =
        [1 \<mapsto> \<lparr>seq_receiver_id = 1,
                 sequence = [100 \<mapsto> snapshot 100 1 []
                               [(10050, 5 / 10 ^ 9), (10051, 5 / 10 ^ 9)]]\<rparr>],
      locations = [1 \<mapsto> Map.empty]\<rparr>"

text \<open>Receiver 1 sees mote 2, and mote 2 has no sequence of its own.\<close>

definition D_orphan :: AllData where
  "D_orphan =
     \<lparr>sequences =
        [1 \<mapsto> \<lparr>seq_receiver_id = 1, sequence = [100 \<mapsto> snapshot 100 1 [2] []]\<rparr>],
      locations = [1 \<mapsto> Map.empty]\<rparr>"

text \<open>Receiver 7 holds the rooms 5, 6, 5, 5 at the times 0 to 3; receiver 8 holds room 6.\<close>

definition D_flicker :: AllData where
  "D_flicker = \<lparr>sequences = Map.empty,
     locations = [7 \<mapsto> [0 \<mapsto> PyInt 5, 1 \<mapsto> PyInt 6, 2 \<mapsto> PyInt 5, 3 \<mapsto> PyInt 5],
                  8 \<mapsto> [0 \<mapsto> PyInt 6]]\<rparr>"

definition D_smoothed :: AllData where
  "D_smoothed = \<lparr>sequences = Map.empty,
     locations = [7 \<mapsto> [0 \<mapsto> PyInt 5, 1 \<mapsto> PyInt 5, 2 \<mapsto> PyInt 5, 3 \<mapsto> PyInt 5],
                  8 \<mapsto> [0 \<mapsto> PyInt 6]]\<rparr>"

text \<open>Receiver 7 has no entry at time 2.\<close>

definition D_gap :: AllData where
  "D_gap = \<lparr>sequences = Map.empty,
     locations = [7 \<mapsto> [0 \<mapsto> PyInt 5, 1 \<mapsto> PyInt 6, 3 \<mapsto> PyInt 5]]\<rparr>"

text \<open>Receiver 7 holds room 5 at time 0.\<close>

definition D_single :: AllData where
  "D_single = \<lparr>sequences = Map.empty, locations = [7 \<mapsto> [0 \<mapsto> PyInt 5]]\<rparr>"

section \<open>Calibration of raw readings\<close>

text \<open>
  C5: for every integer reading, \<open>convert_reading_to_rssi\<close> returns the reading minus 45
  when the reading is below 128, and otherwise minus one times ((reading - 1) XOR 0xFF),
  minus 45.
\<close>

theorem convert_reading_to_rssi_cases:
  "(reading < 128 \<longrightarrow> convert_reading_to_rssi reading = reading - 45) \<and>
   (\<not> reading < 128 \<longrightarrow>
      convert_reading_to_rssi reading = -1 * (Bit_Operations.xor (reading - 1) 255) - 45)"
  by (simp add: convert_reading_to_rssi_def)

theorem convert_reading_to_rssi_cases_witness:
  "convert_reading_to_rssi 100 = 55 \<and> convert_reading_to_rssi 200 = -101"
  using convert_reading_to_rssi_cases [of 100] convert_reading_to_rssi_cases [of 200]
  by simp

section \<open>The strongest signal\<close>

lemma find_strongest_snoc:
  "find_strongest (sigs @ [x]) =
     (if snd x > snd (find_strongest sigs) then x else find_strongest sigs)"
  by (simp add: find_strongest_def)

lemma find_strongest_max:
  "(\<forall>rs\<in>set sigs. snd rs \<le> snd (find_strongest sigs)) \<and> 0 \<le> snd (find_strongest sigs) \<and>
   (find_strongest sigs = (0, 0) \<or>
    (\<exists>j<length sigs. sigs ! j = find_strongest sigs \<and> 0 < snd (find_strongest sigs) \<and>
       (\<forall>l<j. snd (sigs ! l) < snd (find_strongest sigs))))"
proof (induction sigs rule: rev_induct)
  case Nil
  then show ?case by (simp add: find_strongest_def)
next
  case (snoc x xs)
  let ?m = "find_strongest xs"
  show ?case
  proof (cases "snd x > snd ?m")
    case True
    then have fs: "find_strongest (xs @ [x]) = x" by (simp add: find_strongest_snoc)
    have 1: "\<forall>rs\<in>set (xs @ [x]). snd rs \<le> snd x" using snoc.IH True by fastforce
    have 2: "0 < snd x" using snoc.IH True by linarith
    have 3: "\<forall>l<length xs. snd ((xs @ [x]) ! l) < snd x"
    proof (intro allI impI)
      fix l assume l: "l < length xs"
      then have "xs ! l \<in> set xs" by simp
      with snoc.IH have "snd (xs ! l) \<le> snd ?m" by blast
      with True l show "snd ((xs @ [x]) ! l) < snd x" by (simp add: nth_append)
    qed
    have "length xs < length (xs @ [x]) \<and> (xs @ [x]) ! length xs = x" by simp
    with 2 3 have "\<exists>j<length (xs @ [x]). (xs @ [x]) ! j = x \<and> 0 < snd x \<and>
       (\<forall>l<j. snd ((xs @ [x]) ! l) < snd x)" by blast
    with 1 2 show ?thesis unfolding fs by simp
  next
    case False
    then have fs: "find_strongest (xs @ [x]) = ?m" by (simp add: find_strongest_snoc)
    have 1: "\<forall>rs\<in>set (xs @ [x]). snd rs \<le> snd ?m" using snoc.IH False by auto
    from snoc.IH have "?m = (0, 0) \<or>
      (\<exists>j<length xs. xs ! j = ?m \<and> 0 < snd ?m \<and> (\<forall>l<j. snd (xs ! l) < snd ?m))" by blast
    then have "?m = (0, 0) \<or>
      (\<exists>j<length (xs @ [x]). (xs @ [x]) ! j = ?m \<and> 0 < snd ?m \<and>
         (\<forall>l<j. snd ((xs @ [x]) ! l) < snd ?m))"
    proof
      assume "?m = (0, 0)" then show ?thesis by simp
    next
      assume "\<exists>j<length xs. xs ! j = ?m \<and> 0 < snd ?m \<and> (\<forall>l<j. snd (xs ! l) < snd ?m)"
      then obtain j where j: "j < length xs" "xs ! j = ?m" "0 < snd ?m"
        "\<forall>l<j. snd (xs ! l) < snd ?m" by blast
      then have "j < length (xs @ [x]) \<and> (xs @ [x]) ! j = ?m \<and> 0 < snd ?m \<and>
         (\<forall>l<j. snd ((xs @ [x]) ! l) < snd ?m)" by (simp add: nth_append)
      then show ?thesis by blast
    qed
    with 1 snoc.IH show ?thesis unfolding fs by blast
  qed
qed

lemma THRESHOLD_pos: "0 < THRESHOLD"
  by (simp add: THRESHOLD_def)

lemma select_room_Nil: "0 < thr \<Longrightarrow> select_room thr [] = 0"
  by (simp add: select_room_def find_strongest_def)

lemma select_room_below:
  assumes "0 < thr" and "\<forall>rs\<in>set sigs. snd rs < thr"
  shows "select_room thr sigs = 0"
proof -
  from find_strongest_max [of sigs] have "find_strongest sigs = (0, 0) \<or>
    (\<exists>j<length sigs. sigs ! j = find_strongest sigs)" by blast
  then have "snd (find_strongest sigs) < thr"
  proof
    assume "find_strongest sigs = (0, 0)" with assms(1) show ?thesis by simp
  next
    assume "\<exists>j<length sigs. sigs ! j = find_strongest sigs"
    then obtain j where "j < length sigs" "sigs ! j = find_strongest sigs" by blast
    then have "find_strongest sigs \<in> set sigs" by (metis nth_mem)
    with assms(2) show ?thesis by blast
  qed
  then show ?thesis by (simp add: select_room_def)
qed

lemma select_room_first_max:
  assumes "0 < thr" and "rs \<in> set sigs" and "thr \<le> snd rs"
  shows "\<exists>j<length sigs. select_room thr sigs = fst (sigs ! j) \<and>
           (\<forall>l<length sigs. snd (sigs ! l) \<le> snd (sigs ! j)) \<and>
           (\<forall>l<j. snd (sigs ! l) < snd (sigs ! j))"
proof -
  let ?m = "find_strongest sigs"
  from find_strongest_max [of sigs] have le: "\<forall>rs\<in>set sigs. snd rs \<le> snd ?m"
    and alt: "?m = (0, 0) \<or>
    (\<exists>j<length sigs. sigs ! j = ?m \<and> 0 < snd ?m \<and> (\<forall>l<j. snd (sigs ! l) < snd ?m))"
    by blast+
  from le assms have big: "thr \<le> snd ?m" by fastforce
  with assms(1) have "?m \<noteq> (0, 0)" by auto
  with alt obtain j where j: "j < length sigs" "sigs ! j = ?m"
    "\<forall>l<j. snd (sigs ! l) < snd ?m" by blast
  have "select_room thr sigs = fst (sigs ! j)" using big j(2) by (simp add: select_room_def)
  moreover have "\<forall>l<length sigs. snd (sigs ! l) \<le> snd (sigs ! j)" using le j(2) by simp
  moreover have "\<forall>l<j. snd (sigs ! l) < snd (sigs ! j)" using j by simp
  ultimately show ?thesis using j(1) by blast
qed

lemma distinct_add_signal:
  "distinct (map fst signals) \<Longrightarrow> distinct (map fst (add_signal signals rv))"
  by (simp add: add_signal_def distinct_update)

lemma distinct_foldl_add_signal:
  "distinct (map fst signals) \<Longrightarrow> distinct (map fst (foldl add_signal signals d))"
  by (induction d arbitrary: signals) (simp_all add: distinct_add_signal)

lemma distinct_sum_signals_aux:
  "distinct (map fst signals) \<Longrightarrow>
   distinct (map fst (foldl (\<lambda>signals td. foldl add_signal signals (snd td)) signals data))"
  by (induction data arbitrary: signals) (simp_all add: distinct_foldl_add_signal)

lemma distinct_sum_signals: "distinct (map fst (sum_signals data))"
  by (simp add: sum_signals_def distinct_sum_signals_aux)

lemma window_signals_distinct:
  "window_signals D i t k = Inr sigs \<Longrightarrow> distinct (map fst sigs)"
  by (auto simp: window_signals_def distinct_sum_signals split: sum.splits)

lemma identify_location_with_cases:
  "identify_location_with thr D i t k =
     (case window_signals D i t k of Inl e \<Rightarrow> Inl e
      | Inr sigs \<Rightarrow> Inr (D\<lparr>locations := (locations D)(i \<mapsto>
           (case locations D i of None \<Rightarrow> Map.empty | Some m \<Rightarrow> m)(t \<mapsto> PyInt (select_room thr sigs)))\<rparr>,
           select_room thr sigs))"
  by (simp add: identify_location_with_def Let_def split: sum.splits)

text \<open>
  C1: when \<open>identify_location\<close> returns room \<open>r\<close>, the aggregated signals form a dict
  with distinct rooms, in its iteration order. If the dict is empty, or every signal
  is below \<open>THRESHOLD\<close>, then \<open>r\<close> is 0. If some signal reaches the threshold, \<open>r\<close> is the
  room at the first position that holds the largest signal: no signal is larger, and
  every earlier one is strictly smaller, so a later room with an equal signal never
  replaces it.
\<close>

theorem identify_location_strongest:
  assumes "identify_location D i t t_w_list = Inr (D', r)"
  shows "\<exists>signals. window_signals D i t t_w_list = Inr signals \<and> distinct (map fst signals) \<and>
     (signals = [] \<longrightarrow> r = 0) \<and>
     ((\<forall>rs\<in>set signals. snd rs < THRESHOLD) \<longrightarrow> r = 0) \<and>
     ((\<exists>rs\<in>set signals. THRESHOLD \<le> snd rs) \<longrightarrow>
        (\<exists>j<length signals. r = fst (signals ! j) \<and>
           (\<forall>l<length signals. snd (signals ! l) \<le> snd (signals ! j)) \<and>
           (\<forall>l<j. snd (signals ! l) < snd (signals ! j))))"
proof -
  from assms obtain signals where ws: "window_signals D i t t_w_list = Inr signals"
    and r: "r = select_room THRESHOLD signals"
    by (auto simp: identify_location_def identify_location_with_def Let_def split: sum.splits)
  have 1: "signals = [] \<longrightarrow> r = 0"
    using r select_room_below [OF THRESHOLD_pos, of "[]"] by simp
  have 2: "(\<forall>rs\<in>set signals. snd rs < THRESHOLD) \<longrightarrow> r = 0"
    using r select_room_below [OF THRESHOLD_pos, of signals] by simp
  have 3: "(\<exists>rs\<in>set signals. THRESHOLD \<le> snd rs) \<longrightarrow>
        (\<exists>j<length signals. r = fst (signals ! j) \<and>
           (\<forall>l<length signals. snd (signals ! l) \<le> snd (signals ! j)) \<and>
           (\<forall>l<j. snd (signals ! l) < snd (signals ! j)))"
    using r select_room_first_max [OF THRESHOLD_pos, of _ signals] by blast
  from ws window_signals_distinct [OF ws] 1 2 3 show ?thesis by blast
qed

section \<open>Concrete runs of identify\_location\<close>

lemma single_map: "map f xs = [y] \<Longrightarrow> \<exists>x. xs = [x] \<and> f x = y"
  by (cases xs) auto

lemma window_signals_D_tie:
  "window_signals D_tie 1 100 [(0, 1)] = Inr [(10050, 5 / 10 ^ 9), (10051, 5 / 10 ^ 9)]"
proof -
  have cc: "collect_contacts D_tie 1 100 [(0, 1)] [] = Inr [(100, [1])]"
    by (simp add: D_tie_def snapshot_def return_neighbor_ids_def Signals_return_neighbor_ids_def)
  have sd: "sum_datapoints [(0, 1)] 100 [(100, [1])] None 0 = Inr (1, Some 1)"
    by (simp add: find_weight_def)
  have wd: "weigh_data D_tie [(0, 1)] 100 [(100, [1])] (Some 1) 1 [] =
              Inr [(100, [(10050, 5 / 10 ^ 9), (10051, 5 / 10 ^ 9)])]"
    by (simp add: find_weight_def D_tie_def snapshot_def return_nearest_rooms_def
        Signals_return_nearest_rooms_def)
  show ?thesis
    unfolding window_signals_def
    by (simp only: cc sd wd sum.case fst_conv snd_conv) (simp add: sum_signals_def add_signal_def)
qed

lemma select_room_D_tie:
  "select_room thr [(10050, 5 / 10 ^ 9), (10051, 5 / 10 ^ 9)] =
     (if 5 / 10 ^ 9 < thr then 0 else 10050)"
  by (simp add: select_room_def find_strongest_def)

lemma identify_location_D_tie:
  "identify_location D_tie 1 100 [(0, 1)] =
     Inr (D_tie\<lparr>locations := [1 \<mapsto> [100 \<mapsto> PyInt 10050]]\<rparr>, 10050)"
  unfolding identify_location_def identify_location_with_cases
  by (simp only: window_signals_D_tie sum.case select_room_D_tie)
     (simp add: THRESHOLD_def D_tie_def)

theorem identify_location_strongest_witness:
  "identify_location D_tie 1 100 [(0, 1)] =
     Inr (D_tie\<lparr>locations := [1 \<mapsto> [100 \<mapsto> PyInt 10050]]\<rparr>, 10050) \<and>
   (\<exists>signals. window_signals D_tie 1 100 [(0, 1)] = Inr signals \<and> distinct (map fst signals))"
  using identify_location_strongest [OF identify_location_D_tie] identify_location_D_tie
  by blast

text \<open>
  C2: receiver \<open>R\<close> has at time 100 the contacts \<open>R\<close> and \<open>X\<close>; the snapshot of \<open>R\<close> reports
  beacon 10050 at power 5e-9, the one of \<open>X\<close> reports beacon 10050 at power 1e-9, and the
  kernel is \<open>[(0,1)]\<close>. Then the weighted number of datapoints is 2, the aggregated signal
  of room 10050 is 5e-9 * 1 / 2 + 1e-9 * 1 / 2 = 3e-9, which is below the threshold, and
  \<open>identify_location\<close> returns room 0.
\<close>

theorem example_scenario:
  assumes "sequences D R = Some sR" and "sequence sR 100 = Some snR"
    and "map mob_sender_id (mobile snR) = [X]"
    and "map (\<lambda>s. (sta_sender_id s, power s)) (stationary snR) = [(10050, 5 / 10 ^ 9)]"
    and "sequences D X = Some sX" and "sequence sX 100 = Some snX"
    and "map (\<lambda>s. (sta_sender_id s, power s)) (stationary snX) = [(10050, 1 / 10 ^ 9)]"
  shows "collect_contacts D R 100 [(0, 1)] [] = Inr [(100, [R, X])] \<and>
         sum_datapoints [(0, 1)] 100 [(100, [R, X])] None 0 = Inr (2, Some 1) \<and>
         window_signals D R 100 [(0, 1)] = Inr [(10050, 5 / 10 ^ 9 * 1 / 2 + 1 / 10 ^ 9 * 1 / 2)] \<and>
         5 / 10 ^ 9 * 1 / 2 + 1 / 10 ^ 9 * 1 / 2 = (3 / 10 ^ 9 :: real) \<and>
         (3 / 10 ^ 9 :: real) < THRESHOLD \<and>
         (\<exists>D'. identify_location D R 100 [(0, 1)] = Inr (D', 0))"
proof -
  from single_map [OF assms(4)] obtain s1 where s1: "stationary snR = [s1]"
    "sta_sender_id s1 = 10050" "power s1 = 5 / 10 ^ 9" by auto
  from single_map [OF assms(7)] obtain s2 where s2: "stationary snX = [s2]"
    "sta_sender_id s2 = 10050" "power s2 = 1 / 10 ^ 9" by auto
  have cc: "collect_contacts D R 100 [(0, 1)] [] = Inr [(100, [R, X])]"
    using assms(1-3) by (simp add: return_neighbor_ids_def Signals_return_neighbor_ids_def)
  have sd: "sum_datapoints [(0, 1)] 100 [(100, [R, X])] None 0 = Inr (2, Some 1)"
    by (simp add: find_weight_def)
  have wc: "weigh_contacts D 100 [R, X] 1 2 [] = Inr [(10050, 3 / 10 ^ 9)]"
    using assms(1,2,5,6) s1 s2
    by (simp add: return_nearest_rooms_def Signals_return_nearest_rooms_def)
  have wd: "weigh_data D [(0, 1)] 100 [(100, [R, X])] (Some 1) 2 [] =
              Inr [(100, [(10050, 3 / 10 ^ 9)])]"
    using wc by (simp add: find_weight_def)
  have ws: "window_signals D R 100 [(0, 1)] = Inr [(10050, 3 / 10 ^ 9)]"
    unfolding window_signals_def
    by (simp only: cc sd wd sum.case fst_conv snd_conv) (simp add: sum_signals_def add_signal_def)
  have th: "(3 / 10 ^ 9 :: real) < THRESHOLD" by (simp add: THRESHOLD_def)
  have il: "\<exists>D'. identify_location D R 100 [(0, 1)] = Inr (D', 0)"
    unfolding identify_location_def identify_location_with_cases
    by (simp only: ws sum.case) (simp add: select_room_def find_strongest_def THRESHOLD_def)
  from cc sd ws th il show ?thesis by simp
qed

theorem example_scenario_witness:
  "window_signals D_example 1 100 [(0, 1)] = Inr [(10050, 5 / 10 ^ 9 * 1 / 2 + 1 / 10 ^ 9 * 1 / 2)] \<and>
   (\<exists>D'. identify_location D_example 1 100 [(0, 1)] = Inr (D', 0))"
proof -
  let ?snR = "snapshot 100 1 [2] [(10050, 5 / 10 ^ 9)]"
  let ?snX = "snapshot 100 2 [] [(10050, 1 / 10 ^ 9)]"
  let ?sR = "\<lparr>seq_receiver_id = 1, sequence = [100 \<mapsto> ?snR]\<rparr>"
  let ?sX = "\<lparr>seq_receiver_id = 2, sequence = [100 \<mapsto> ?snX]\<rparr>"
  have 1: "sequences D_example 1 = Some ?sR" by (simp add: D_example_def)
  have 2: "sequence ?sR 100 = Some ?snR" by simp
  have 3: "map mob_sender_id (mobile ?snR) = [2]" by (simp add: snapshot_def)
  have 4: "map (\<lambda>s. (sta_sender_id s, power s)) (stationary ?snR) = [(10050, 5 / 10 ^ 9)]"
    by (simp add: snapshot_def)
  have 5: "sequences D_example 2 = Some ?sX" by (simp add: D_example_def)
  have 6: "sequence ?sX 100 = Some ?snX" by simp
  have 7: "map (\<lambda>s. (sta_sender_id s, power s)) (stationary ?snX) = [(10050, 1 / 10 ^ 9)]"
    by (simp add: snapshot_def)
  from example_scenario [OF 1 2 3 4 5 6 7] show ?thesis by blast
qed

section \<open>Missing data\<close>

lemma set_update_subset: "set (AList.update k v al) \<subseteq> insert (k, v) (set al)"
  by (induction al) auto

lemma good_contacts_update:
  assumes "good_contacts D k t cs" and "tw \<in> set k" and "\<forall>c\<in>set nb. sequences D c \<noteq> None"
    and "nb \<noteq> []"
  shows "good_contacts D k t (AList.update (t + fst tw) nb cs)"
  unfolding good_contacts_def
proof
  fix tc assume "tc \<in> set (AList.update (t + fst tw) nb cs)"
  with set_update_subset have "tc = (t + fst tw, nb) \<or> tc \<in> set cs" by fastforce
  then show "(\<exists>tw\<in>set k. fst tc = t + fst tw) \<and> snd tc \<noteq> [] \<and>
        (\<forall>c\<in>set (snd tc). sequences D c \<noteq> None)"
    using assms by (auto simp: good_contacts_def)
qed

lemma collect_contacts_ok:
  assumes "sequences D i = Some s"
    and "\<forall>tw\<in>set k. \<forall>sn. sequence s (t + fst tw) = Some sn \<longrightarrow>
           (\<forall>m\<in>set (mobile sn). sequences D (mob_sender_id m) \<noteq> None)"
  shows "set k' \<subseteq> set k \<Longrightarrow> good_contacts D k t cs \<Longrightarrow>
         \<exists>cs'. collect_contacts D i t k' cs = Inr cs' \<and> good_contacts D k t cs' \<and>
           (cs = [] \<and> (\<forall>tw\<in>set k'. sequence s (t + fst tw) = None) \<longrightarrow> cs' = [])"
proof (induction k' arbitrary: cs)
  case Nil
  then show ?case by simp
next
  case (Cons tw rest)
  then have tw: "tw \<in> set k" and rest: "set rest \<subseteq> set k" by auto
  show ?case
  proof (cases "sequence s (t + fst tw)")
    case None
    with Cons.IH [OF rest Cons.prems(2)] assms(1) show ?thesis by auto
  next
    case (Some sn)
    let ?nb = "i # return_neighbor_ids s (t + fst tw)"
    have "\<forall>c\<in>set ?nb. sequences D c \<noteq> None"
      using assms tw Some
      by (auto simp: return_neighbor_ids_def Signals_return_neighbor_ids_def)
    from good_contacts_update [OF Cons.prems(2) tw this]
    have "good_contacts D k t (AList.update (t + fst tw) ?nb cs)" by simp
    from Cons.IH [OF rest this] Some assms(1) show ?thesis by (auto simp: Let_def)
  qed
qed

lemma find_weight_cases:
  "(find_weight k t tc w = w \<and> (\<forall>tw\<in>set k. tc - fst tw \<noteq> t)) \<or>
   (\<exists>tw\<in>set k. tc - fst tw = t \<and> find_weight k t tc w = Some (snd tw))"
proof (induction k rule: rev_induct)
  case Nil
  then show ?case by (simp add: find_weight_def)
next
  case (snoc x xs)
  have "find_weight (xs @ [x]) t tc w =
          (if tc - fst x = t then Some (snd x) else find_weight xs t tc w)"
    by (simp add: find_weight_def)
  with snoc show ?case by auto
qed

lemma find_weight_found:
  assumes "tw \<in> set k" and "tc = t + fst tw" and "\<forall>tw\<in>set k. 0 < snd tw"
  shows "\<exists>wt. find_weight k t tc w = Some wt \<and> 0 < wt"
  using find_weight_cases [of k t tc w] assms by auto

lemma sum_datapoints_ok:
  assumes "\<forall>tw\<in>set k. 0 < snd tw"
  shows "good_contacts D k t cs \<Longrightarrow>
         \<exists>n' w'. sum_datapoints k t cs w n = Inr (n', w') \<and> n \<le> n' \<and> (cs \<noteq> [] \<longrightarrow> n < n')"
proof (induction cs arbitrary: w n)
  case Nil
  then show ?case by simp
next
  case (Cons tc rest)
  then obtain tw where tw: "tw \<in> set k" "fst tc = t + fst tw" and ne: "snd tc \<noteq> []"
    by (auto simp: good_contacts_def)
  from find_weight_found [OF tw assms] obtain wt
    where wt: "find_weight k t (fst tc) w = Some wt" "0 < wt" by blast
  have "good_contacts D k t rest" using Cons.prems by (simp add: good_contacts_def)
  from Cons.IH [OF this, of "Some wt" "n + real (length (snd tc)) * wt"]
  obtain n' w' where r: "sum_datapoints k t rest (Some wt) (n + real (length (snd tc)) * wt)
      = Inr (n', w')" and le: "n + real (length (snd tc)) * wt \<le> n'" by blast
  have "0 < real (length (snd tc)) * wt" using ne wt(2) by simp
  with le have "n < n'" by linarith
  with r wt show ?case by simp
qed

lemma weigh_rooms_ok: "n \<noteq> 0 \<Longrightarrow> \<exists>d'. weigh_rooms rooms w n d = Inr d'"
  by (induction rooms arbitrary: d) (simp_all add: Let_def)

lemma weigh_contacts_ok:
  "n \<noteq> 0 \<Longrightarrow> \<forall>c\<in>set cs. sequences D c \<noteq> None \<Longrightarrow> \<exists>d'. weigh_contacts D tc cs w n d = Inr d'"
proof (induction cs arbitrary: d)
  case Nil
  then show ?case by simp
next
  case (Cons c cs)
  then obtain s where s: "sequences D c = Some s" by auto
  from weigh_rooms_ok [OF Cons.prems(1)] obtain d1
    where d1: "weigh_rooms (return_nearest_rooms s tc) w n d = Inr d1" by blast
  from Cons.IH [OF Cons.prems(1), of d1] Cons.prems(2) s d1 show ?case by simp
qed

lemma weigh_data_ok:
  assumes "\<forall>tw\<in>set k. 0 < snd tw" and "n \<noteq> 0"
  shows "good_contacts D k t cs \<Longrightarrow> \<exists>data'. weigh_data D k t cs w n data = Inr data'"
proof (induction cs arbitrary: w data)
  case Nil
  then show ?case by simp
next
  case (Cons tc rest)
  then obtain tw where tw: "tw \<in> set k" "fst tc = t + fst tw"
    and reg: "\<forall>c\<in>set (snd tc). sequences D c \<noteq> None"
    by (auto simp: good_contacts_def)
  from find_weight_found [OF tw assms(1)] obtain wt
    where wt: "find_weight k t (fst tc) w = Some wt" by blast
  from weigh_contacts_ok [OF assms(2) reg] obtain d
    where d: "weigh_contacts D (fst tc) (snd tc) wt n [] = Inr d" by blast
  have "good_contacts D k t rest" using Cons.prems by (simp add: good_contacts_def)
  from Cons.IH [OF this] wt d show ?case by simp
qed

lemma window_signals_ok:
  assumes "sequences D i = Some s"
    and "\<forall>tw\<in>set k. \<forall>sn. sequence s (t + fst tw) = Some sn \<longrightarrow>
           (\<forall>m\<in>set (mobile sn). sequences D (mob_sender_id m) \<noteq> None)"
    and "\<forall>tw\<in>set k. 0 < snd tw"
  shows "\<exists>sigs. window_signals D i t k = Inr sigs \<and>
           ((\<forall>tw\<in>set k. sequence s (t + fst tw) = None) \<longrightarrow> sigs = [])"
proof -
  have g0: "good_contacts D k t []" by (simp add: good_contacts_def)
  from collect_contacts_ok [OF assms(1,2) subset_refl g0]
  obtain cs where cs: "collect_contacts D i t k [] = Inr cs" and g: "good_contacts D k t cs"
    and e: "(\<forall>tw\<in>set k. sequence s (t + fst tw) = None) \<longrightarrow> cs = []" by auto
  from sum_datapoints_ok [OF assms(3) g, of None 0]
  obtain n w where nw: "sum_datapoints k t cs None 0 = Inr (n, w)"
    and n: "cs \<noteq> [] \<longrightarrow> 0 < n" by auto
  show ?thesis
  proof (cases "cs = []")
    case True
    with cs nw show ?thesis by (simp add: window_signals_def sum_signals_def)
  next
    case False
    with n have "n \<noteq> 0" by simp
    from weigh_data_ok [OF assms(3) this g, of w "[]"]
    obtain data where "weigh_data D k t cs w n [] = Inr data" by blast
    with cs nw have "window_signals D i t k = Inr (sum_signals data)"
      by (simp add: window_signals_def)
    moreover from e False have "\<not> (\<forall>tw\<in>set k. sequence s (t + fst tw) = None)" by blast
    ultimately show ?thesis by blast
  qed
qed

text \<open>
  C6, as amended: when the weights of the kernel are positive, the receiver has a sequence,
  and every mobile contact that the receiver reports at a timestamp of the window has
  a sequence too, \<open>identify_location\<close> raises no exception (so it never divides by zero),
  whatever timestamps are missing from the sequences; and when the receiver has no snapshot
  at any timestamp of the window, it returns 0.
\<close>

theorem identify_location_no_error:
  assumes "sequences D i = Some s"
    and "\<forall>tw\<in>set k. \<forall>sn. sequence s (t + fst tw) = Some sn \<longrightarrow>
           (\<forall>m\<in>set (mobile sn). sequences D (mob_sender_id m) \<noteq> None)"
    and "\<forall>tw\<in>set k. 0 < snd tw"
  shows "\<exists>D' r. identify_location D i t k = Inr (D', r) \<and>
           ((\<forall>tw\<in>set k. sequence s (t + fst tw) = None) \<longrightarrow> r = 0)"
proof -
  from window_signals_ok [OF assms] obtain sigs where ws: "window_signals D i t k = Inr sigs"
    and e: "(\<forall>tw\<in>set k. sequence s (t + fst tw) = None) \<longrightarrow> sigs = []" by blast
  then show ?thesis
    by (auto simp: identify_location_def identify_location_with_cases
        select_room_Nil THRESHOLD_pos)
qed

theorem identify_location_no_error_witness:
  "\<exists>D' r. identify_location D_example 1 100 [(0, 1)] = Inr (D', r)"
proof -
  let ?s = "\<lparr>seq_receiver_id = 1,
             sequence = [100 \<mapsto> snapshot 100 1 [2] [(10050, 5 / 10 ^ 9)]]\<rparr>"
  have 1: "sequences D_example 1 = Some ?s" by (simp add: D_example_def)
  have 2: "\<forall>tw\<in>set [(0, 1 :: real)]. \<forall>sn. sequence ?s (100 + fst tw) = Some sn \<longrightarrow>
           (\<forall>m\<in>set (mobile sn). sequences D_example (mob_sender_id m) \<noteq> None)"
    by (auto simp: D_example_def snapshot_def)
  have 3: "\<forall>tw\<in>set [(0 :: int, 1 :: real)]. 0 < snd tw" by simp
  from identify_location_no_error [OF 1 2 3] show ?thesis by blast
qed

text \<open>
  A contact without a sequence of its own makes \<open>identify_location\<close> raise KeyError, with
  a kernel of positive weights.
\<close>

theorem identify_location_orphan_contact:
  "identify_location D_orphan 1 100 [(0, 1)] = Inl KeyError"
proof -
  have cc: "collect_contacts D_orphan 1 100 [(0, 1)] [] = Inr [(100, [1, 2])]"
    by (simp add: D_orphan_def snapshot_def return_neighbor_ids_def Signals_return_neighbor_ids_def)
  have sd: "sum_datapoints [(0, 1)] 100 [(100, [1, 2])] None 0 = Inr (2, Some 1)"
    by (simp add: find_weight_def)
  have wd: "weigh_data D_orphan [(0, 1)] 100 [(100, [1, 2])] (Some 1) 2 [] = Inl KeyError"
    by (simp add: find_weight_def D_orphan_def snapshot_def return_nearest_rooms_def
        Signals_return_nearest_rooms_def)
  show ?thesis
    unfolding identify_location_def identify_location_with_cases window_signals_def
    by (simp only: cc sd wd sum.case fst_conv snd_conv)
qed

section \<open>The threshold\<close>

lemma collect_contacts_sequences:
  "sequences D1 = sequences D2 \<Longrightarrow>
   collect_contacts D1 i t k cs = collect_contacts D2 i t k cs"
  by (induction k arbitrary: cs) (simp_all add: Let_def split: option.splits)

lemma weigh_contacts_sequences:
  "sequences D1 = sequences D2 \<Longrightarrow>
   weigh_contacts D1 tc cs w n d = weigh_contacts D2 tc cs w n d"
  by (induction cs arbitrary: d) (simp_all split: option.splits sum.splits)

lemma weigh_data_sequences:
  "sequences D1 = sequences D2 \<Longrightarrow>
   weigh_data D1 k t cs w n data = weigh_data D2 k t cs w n data"
  by (induction cs arbitrary: w data)
     (simp_all add: weigh_contacts_sequences [of D1 D2] split: option.splits sum.splits)

lemma window_signals_sequences:
  "sequences D1 = sequences D2 \<Longrightarrow> window_signals D1 i t k = window_signals D2 i t k"
  by (simp add: window_signals_def collect_contacts_sequences [of D1 D2]
      weigh_data_sequences [of D1 D2] split: sum.splits)

lemma select_room_antitone:
  "thr1 \<le> thr2 \<Longrightarrow> select_room thr2 sigs \<noteq> 0 \<Longrightarrow> select_room thr1 sigs \<noteq> 0"
  by (auto simp: select_room_def Let_def split: if_splits)

lemma identify_range_antitone:
  "thr1 \<le> thr2 \<Longrightarrow> sequences D1 = sequences D2 \<Longrightarrow>
   (case identify_range thr1 D1 i ts k of
      Inl e1 \<Rightarrow> identify_range thr2 D2 i ts k = Inl e1
    | Inr Drs1 \<Rightarrow> (\<exists>E2 rs2. identify_range thr2 D2 i ts k = Inr (E2, rs2) \<and>
         length rs2 = length ts \<and> length (snd Drs1) = length ts \<and>
         count_assigned rs2 \<le> count_assigned (snd Drs1)))"
proof (induction ts arbitrary: D1 D2)
  case Nil
  then show ?case by (simp add: count_assigned_def)
next
  case (Cons t ts)
  have ws: "window_signals D1 i t k = window_signals D2 i t k"
    using Cons.prems(2) by (rule window_signals_sequences)
  show ?case
  proof (cases "window_signals D2 i t k")
    case (Inl e)
    with ws show ?thesis by (simp add: identify_location_with_cases)
  next
    case (Inr sigs)
    let ?E1 = "D1\<lparr>locations := (locations D1)(i \<mapsto>
           (case locations D1 i of None \<Rightarrow> Map.empty | Some m \<Rightarrow> m)(t \<mapsto> PyInt (select_room thr1 sigs)))\<rparr>"
    let ?E2 = "D2\<lparr>locations := (locations D2)(i \<mapsto>
           (case locations D2 i of None \<Rightarrow> Map.empty | Some m \<Rightarrow> m)(t \<mapsto> PyInt (select_room thr2 sigs)))\<rparr>"
    have i1: "identify_location_with thr1 D1 i t k = Inr (?E1, select_room thr1 sigs)"
      and i2: "identify_location_with thr2 D2 i t k = Inr (?E2, select_room thr2 sigs)"
      using ws Inr by (simp_all add: identify_location_with_cases)
    have sq: "sequences ?E1 = sequences ?E2" using Cons.prems(2) by simp
    note IH = Cons.IH [OF Cons.prems(1) sq]
    show ?thesis
    proof (cases "identify_range thr1 ?E1 i ts k")
      case (Inl e)
      with IH i1 i2 show ?thesis by simp
    next
      case r1: (Inr Drs1)
      with IH obtain F2 rs2 where r2: "identify_range thr2 ?E2 i ts k = Inr (F2, rs2)"
        and len: "length rs2 = length ts" "length (snd Drs1) = length ts"
        and cnt: "count_assigned rs2 \<le> count_assigned (snd Drs1)" by auto
      have "count_assigned (select_room thr2 sigs # rs2)
              \<le> count_assigned (select_room thr1 sigs # snd Drs1)"
        using cnt select_room_antitone [OF Cons.prems(1), of sigs]
        by (auto simp: count_assigned_def)
      with i1 i2 r1 r2 len show ?thesis by simp
    qed
  qed
qed

text \<open>
  C8: for the same data, receiver, timestamps and kernel, a run of \<open>identify_location\<close> over
  the timestamps with the larger threshold fails exactly when the run with the smaller one
  fails, and otherwise assigns a room other than 0 to at most as many timestamps.
\<close>

theorem threshold_antitone:
  assumes "thr1 \<le> thr2"
  shows "(\<forall>e. identify_range thr1 D i ts k = Inl e \<longrightarrow> identify_range thr2 D i ts k = Inl e) \<and>
         (\<forall>E1 rs1. identify_range thr1 D i ts k = Inr (E1, rs1) \<longrightarrow>
            (\<exists>E2 rs2. identify_range thr2 D i ts k = Inr (E2, rs2) \<and>
               length rs2 = length rs1 \<and> count_assigned rs2 \<le> count_assigned rs1))"
  using identify_range_antitone [OF assms refl, of D i ts k]
  by (auto split: sum.splits)

lemma identify_range_D_tie:
  "identify_range thr D_tie 1 [100] [(0, 1)] =
     Inr (D_tie\<lparr>locations := [1 \<mapsto> [100 \<mapsto> PyInt (if 5 / 10 ^ 9 < thr then 0 else 10050)]]\<rparr>,
          [if 5 / 10 ^ 9 < thr then 0 else 10050])"
proof -
  have "identify_location_with thr D_tie 1 100 [(0, 1)] =
     Inr (D_tie\<lparr>locations := [1 \<mapsto> [100 \<mapsto> PyInt (if 5 / 10 ^ 9 < thr then 0 else 10050)]]\<rparr>,
          if 5 / 10 ^ 9 < thr then 0 else 10050)"
    unfolding identify_location_with_cases
    by (simp only: window_signals_D_tie sum.case select_room_D_tie) (simp add: D_tie_def)
  then show ?thesis by simp
qed

theorem threshold_antitone_witness:
  "(1 / 10 ^ 9 :: real) \<le> 1 / 10 ^ 8 \<and>
   (\<exists>E2 rs2. identify_range (1 / 10 ^ 8) D_tie 1 [100] [(0, 1)] = Inr (E2, rs2) \<and>
      length rs2 = length [10050 :: int] \<and> count_assigned rs2 \<le> count_assigned [10050])"
proof -
  have le: "(1 / 10 ^ 9 :: real) \<le> 1 / 10 ^ 8" by simp
  have run: "identify_range (1 / 10 ^ 9) D_tie 1 [100] [(0, 1)] =
      Inr (D_tie\<lparr>locations := [1 \<mapsto> [100 \<mapsto> PyInt 10050]]\<rparr>, [10050])"
    unfolding identify_range_D_tie by simp
  from threshold_antitone [OF le, of D_tie 1 "[100]" "[(0, 1)]"] run le
  show ?thesis by blast
qed

section \<open>The walk and the rewrite of smooth\_location\<close>

lemma rewrite_apply:
  "rewrite loc tc p r u =
     (if \<exists>k<length p. u = tc + int k \<and> \<not> p ! k then Some r else loc u)"
proof (induction p arbitrary: loc tc)
  case Nil
  then show ?case by simp
next
  case (Cons b bs)
  have ex: "(\<exists>k<length (b # bs). u = tc + int k \<and> \<not> (b # bs) ! k) \<longleftrightarrow>
        ((u = tc \<and> \<not> b) \<or> (\<exists>k<length bs. u = tc + 1 + int k \<and> \<not> bs ! k))"
  proof
    assume "\<exists>k<length (b # bs). u = tc + int k \<and> \<not> (b # bs) ! k"
    then obtain k where k: "k < length (b # bs)" "u = tc + int k" "\<not> (b # bs) ! k" by blast
    show "(u = tc \<and> \<not> b) \<or> (\<exists>k<length bs. u = tc + 1 + int k \<and> \<not> bs ! k)"
    proof (cases k)
      case 0
      with k show ?thesis by simp
    next
      case (Suc j)
      with k have "j < length bs" "u = tc + 1 + int j" "\<not> bs ! j" by simp_all
      then show ?thesis by blast
    qed
  next
    assume "(u = tc \<and> \<not> b) \<or> (\<exists>k<length bs. u = tc + 1 + int k \<and> \<not> bs ! k)"
    then show "\<exists>k<length (b # bs). u = tc + int k \<and> \<not> (b # bs) ! k"
    proof
      assume "u = tc \<and> \<not> b"
      then have "0 < length (b # bs) \<and> u = tc + int 0 \<and> \<not> (b # bs) ! 0" by simp
      then show ?thesis by blast
    next
      assume "\<exists>k<length bs. u = tc + 1 + int k \<and> \<not> bs ! k"
      then obtain k where "k < length bs" "u = tc + 1 + int k" "\<not> bs ! k" by blast
      then have "Suc k < length (b # bs) \<and> u = tc + int (Suc k) \<and> \<not> (b # bs) ! Suc k" by simp
      then show ?thesis by blast
    qed
  qed
  show ?case
    unfolding ex
    by (auto simp: Cons.IH)
qed

lemma match_walk_present:
  "match_walk loc tc p r1 r2 = Some r \<Longrightarrow> k < length p \<Longrightarrow> loc (tc + int k) \<noteq> None"
proof (induction p arbitrary: tc r1 r2 k)
  case Nil
  then show ?case by simp
next
  case (Cons b bs)
  show ?case
  proof (cases k)
    case 0
    with Cons.prems show ?thesis by (auto split: option.splits)
  next
    case (Suc j)
    from Cons.prems obtain r1' r2' where "match_walk loc (tc + 1) bs r1' r2' = Some r"
      by (auto simp: Let_def split: option.splits if_splits)
    from Cons.IH [OF this, of j] Suc Cons.prems show ?thesis by (simp add: add.assoc)
  qed
qed

lemma match_walk_missing:
  "k < length p \<Longrightarrow> loc (tc + int k) = None \<Longrightarrow> match_walk loc tc p r1 r2 = None"
  using match_walk_present [of loc tc p r1 r2 _ k] by (cases "match_walk loc tc p r1 r2") auto

lemma dom_rewrite:
  assumes "match_walk loc tc p r1 r2 = Some r"
  shows "dom (rewrite loc tc p r') = dom loc"
proof -
  have "\<And>u. (rewrite loc tc p r' u \<noteq> None) = (loc u \<noteq> None)"
    using match_walk_present [OF assms] by (auto simp: rewrite_apply)
  then show ?thesis by (auto simp: dom_def)
qed

lemma match_walk_bound:
  "match_walk loc tc p r1 r2 = Some r \<Longrightarrow> r1 \<noteq> PyNone \<Longrightarrow> r = r1"
  by (induction p arbitrary: tc r2) (auto simp: Let_def split: option.splits if_splits)

lemma match_walk_first_True:
  "match_walk loc tc p PyNone r2 = Some r \<Longrightarrow> k < length p \<Longrightarrow> p ! k \<Longrightarrow>
   \<forall>j<k. \<not> p ! j \<Longrightarrow> loc (tc + int k) = Some v \<Longrightarrow> v \<noteq> PyNone \<Longrightarrow> r = v"
proof (induction p arbitrary: tc r2 k)
  case Nil
  then show ?case by simp
next
  case (Cons b bs)
  show ?case
  proof (cases k)
    case 0
    with Cons.prems have "b" "loc tc = Some v" by simp_all
    with Cons.prems(1) have "match_walk loc (tc + 1) bs v r2 = Some r"
      by (simp add: Let_def)
    from match_walk_bound [OF this Cons.prems(6)] show ?thesis .
  next
    case (Suc j)
    with Cons.prems(4) have nb: "\<not> b" by auto
    with Cons.prems(1) obtain r2' where w: "match_walk loc (tc + 1) bs PyNone r2' = Some r"
      by (auto simp: Let_def split: option.splits if_splits)
    have "j < length bs" "bs ! j" "\<forall>l<j. \<not> bs ! l" "loc (tc + 1 + int j) = Some v"
      using Cons.prems Suc by (auto simp: add.assoc)
    from Cons.IH [OF w this Cons.prems(6)] show ?thesis .
  qed
qed

lemma smooth_patterns_gap:
  "\<forall>p\<in>set ps. \<exists>k<length p. loc (t + int k) = None \<Longrightarrow>
   smooth_patterns (Some loc) t ps = Inr (Some loc, 0)"
proof (induction ps)
  case Nil
  then show ?case by simp
next
  case (Cons p ps)
  then obtain k where "k < length p" "loc (t + int k) = None" by auto
  then have "p \<noteq> []" "match_walk loc t p PyNone PyNone = None"
    by (auto simp: match_walk_missing)
  with Cons show ?case by simp
qed

lemma smooth_patterns_result:
  "smooth_patterns L t ps = Inr (L', c) \<Longrightarrow>
     (c = 0 \<and> L' = L) \<or>
     (c = 1 \<and> (\<exists>pre p post r1. ps = pre @ p # post \<and>
        (\<forall>q\<in>set pre. q \<noteq> [] \<and> (\<exists>loc. L = Some loc \<and> match_walk loc t q PyNone PyNone = None)) \<and>
        ((p = [] \<and> L' = L) \<or>
         (\<exists>loc. L = Some loc \<and> match_walk loc t p PyNone PyNone = Some r1 \<and>
                L' = Some (rewrite loc t p r1)))))"
proof (induction ps)
  case Nil
  then show ?case by simp
next
  case (Cons p ps)
  show ?case
  proof (cases "p = []")
    case True
    with Cons.prems have "c = 1" "L' = L" by simp_all
    moreover have "p # ps = [] @ p # ps" by simp
    ultimately show ?thesis using True by fastforce
  next
    case pne: False
    with Cons.prems obtain loc where L: "L = Some loc" by (auto split: option.splits)
    show ?thesis
    proof (cases "match_walk loc t p PyNone PyNone")
      case None
      with Cons.prems pne L have "smooth_patterns L t ps = Inr (L', c)" by simp
      from Cons.IH [OF this] show ?thesis
      proof
        assume "c = 0 \<and> L' = L"
        then show ?thesis by simp
      next
        assume "c = 1 \<and> (\<exists>pre p post r1. ps = pre @ p # post \<and>
        (\<forall>q\<in>set pre. q \<noteq> [] \<and> (\<exists>loc. L = Some loc \<and> match_walk loc t q PyNone PyNone = None)) \<and>
        ((p = [] \<and> L' = L) \<or>
         (\<exists>loc. L = Some loc \<and> match_walk loc t p PyNone PyNone = Some r1 \<and>
                L' = Some (rewrite loc t p r1))))"
        then obtain pre p' post r1 where c: "c = 1" and ps: "ps = pre @ p' # post"
          and pre: "\<forall>q\<in>set pre. q \<noteq> [] \<and> (\<exists>loc. L = Some loc \<and> match_walk loc t q PyNone PyNone = None)"
          and p': "(p' = [] \<and> L' = L) \<or>
         (\<exists>loc. L = Some loc \<and> match_walk loc t p' PyNone PyNone = Some r1 \<and>
                L' = Some (rewrite loc t p' r1))" by blast
        have 1: "p # ps = (p # pre) @ p' # post" using ps by simp
        have 2: "\<forall>q\<in>set (p # pre). q \<noteq> [] \<and> (\<exists>loc. L = Some loc \<and> match_walk loc t q PyNone PyNone = None)"
          using pre pne L None by simp
        from c 1 2 p' show ?thesis by blast
      qed
    next
      case (Some r1)
      with Cons.prems pne L have "c = 1" "L' = Some (rewrite loc t p r1)" by simp_all
      moreover have "p # ps = [] @ p # ps" by simp
      ultimately show ?thesis using L Some by fastforce
    qed
  qed
qed

lemma smooth_patterns_dom:
  assumes "smooth_patterns (Some loc) t ps = Inr (L', c)"
  shows "\<exists>loc'. L' = Some loc' \<and> dom loc' = dom loc"
  using smooth_patterns_result [OF assms] by (auto simp: dom_rewrite)

lemma smooth_patterns_total:
  "\<exists>L' c. smooth_patterns (Some loc) t ps = Inr (L', c)"
  by (induction ps) (auto split: option.splits)

lemma smooth_D_flicker:
  "smooth_location D_flicker 7 0 [[True, False, True, True], [True, True, False, True]]
     = Inr (D_smoothed, 1)"
  by (simp add: smooth_location_def D_flicker_def D_smoothed_def fun_upd_twist)

text \<open>
  C3: for two distinct rooms \<open>A\<close> and \<open>B\<close>, when the room sequence of a receiver holds
  \<open>A, B, A, A\<close> at the times 0 to 3, \<open>smooth_location\<close> at time 0 with the single pattern
  \<open>(True, False, True, True)\<close> stores \<open>A\<close> at time 1, so that the sequence holds
  \<open>A, A, A, A\<close>, and returns 1: a correction was applied.
\<close>

theorem smooth_location_ABAA:
  assumes "A \<noteq> B" and "locations D i = Some seq"
    and "seq 0 = Some (PyInt A)" and "seq 1 = Some (PyInt B)"
    and "seq 2 = Some (PyInt A)" and "seq 3 = Some (PyInt A)"
  shows "smooth_location D i 0 [[True, False, True, True]] =
           Inr (D\<lparr>locations := (locations D)(i \<mapsto> seq(1 \<mapsto> PyInt A))\<rparr>, 1) \<and>
         (seq(1 \<mapsto> PyInt A)) 0 = Some (PyInt A) \<and> (seq(1 \<mapsto> PyInt A)) 1 = Some (PyInt A) \<and>
         (seq(1 \<mapsto> PyInt A)) 2 = Some (PyInt A) \<and> (seq(1 \<mapsto> PyInt A)) 3 = Some (PyInt A)"
  using assms by (simp add: smooth_location_def)

theorem smooth_location_ABAA_witness:
  "smooth_location D_flicker 7 0 [[True, False, True, True]] =
     Inr (D_flicker\<lparr>locations := (locations D_flicker)
            (7 \<mapsto> [0 \<mapsto> PyInt 5, 1 \<mapsto> PyInt 6, 2 \<mapsto> PyInt 5, 3 \<mapsto> PyInt 5](1 \<mapsto> PyInt 5))\<rparr>, 1)"
proof -
  let ?seq = "[0 \<mapsto> PyInt 5, 1 \<mapsto> PyInt 6, 2 \<mapsto> PyInt 5, 3 \<mapsto> PyInt 5] :: time \<rightharpoonup> pyval"
  have 1: "(5 :: int) \<noteq> 6" by simp
  have 2: "locations D_flicker 7 = Some ?seq" by (simp add: D_flicker_def)
  have 3: "?seq 0 = Some (PyInt 5)" "?seq 1 = Some (PyInt 6)"
    "?seq 2 = Some (PyInt 5)" "?seq 3 = Some (PyInt 5)" by simp_all
  from smooth_location_ABAA [OF 1 2 3] show ?thesis by blast
qed

text \<open>
  C4: when the receiver has a room sequence and the window of every pattern contains a
  timestamp that is absent from it, \<open>smooth_location\<close> raises no error, returns 0 and leaves
  the whole state as it was.
\<close>

theorem smooth_location_gap:
  assumes "locations D i = Some seq"
    and "\<forall>p\<in>set patterns. \<exists>k<length p. seq (t + int k) = None"
  shows "smooth_location D i t patterns = Inr (D, 0)"
proof -
  have "(locations D)(i \<mapsto> seq) = locations D"
    using assms(1) by (simp add: fun_upd_idem)
  then show ?thesis
    using smooth_patterns_gap [OF assms(2)] assms(1)
    by (simp add: smooth_location_def)
qed

theorem smooth_location_gap_witness:
  "smooth_location D_gap 7 0 [[True, False, True, True], [True, True, False, True]]
     = Inr (D_gap, 0)"
proof -
  let ?seq = "[0 \<mapsto> PyInt 5, 1 \<mapsto> PyInt 6, 3 \<mapsto> PyInt 5] :: time \<rightharpoonup> pyval"
  have 1: "locations D_gap 7 = Some ?seq" by (simp add: D_gap_def)
  have 2: "\<forall>p\<in>set [[True, False, True, True], [True, True, False, True]].
             \<exists>k<length p. ?seq (0 + int k) = None"
  proof
    fix p assume "p \<in> set [[True, False, True, True], [True, True, False, True]]"
    then have "2 < length p \<and> ?seq (0 + int 2) = None" by auto
    then show "\<exists>k<length p. ?seq (0 + int k) = None" by blast
  qed
  from smooth_location_gap [OF 1 2] show ?thesis .
qed

text \<open>
  C10: when \<open>smooth_location\<close> returns 1, the sequences (the observation stores) and the
  room sequences of all other receivers are unchanged. The pattern list splits into
  patterns whose walk fails, then the pattern \<open>p\<close> that was applied, then the rest; the
  room sequence of receiver \<open>i\<close> changes only at the times \<open>t + k\<close> where \<open>p\<close> is False at
  position \<open>k\<close>, which all receive the value \<open>r1\<close>, and \<open>r1\<close> is the room stored at the first
  True position of \<open>p\<close> (when that entry is a room and not \<open>None\<close>).
\<close>

theorem smooth_location_frame:
  assumes "smooth_location D i t patterns = Inr (D', 1)"
  shows "sequences D' = sequences D \<and>
         (\<forall>j. j \<noteq> i \<longrightarrow> locations D' j = locations D j) \<and>
         (\<exists>pre p post r1. patterns = pre @ p # post \<and>
            (\<forall>q\<in>set pre. q \<noteq> [] \<and>
               (\<exists>loc. locations D i = Some loc \<and> match_walk loc t q PyNone PyNone = None)) \<and>
            (p = [] \<or>
               (\<exists>loc. locations D i = Some loc \<and> match_walk loc t p PyNone PyNone = Some r1)) \<and>
            (locations D i = None \<longrightarrow> locations D' i = None) \<and>
            (\<forall>loc. locations D i = Some loc \<longrightarrow>
               (\<exists>loc'. locations D' i = Some loc' \<and>
                  (\<forall>u. loc' u =
                     (if \<exists>k<length p. u = t + int k \<and> \<not> p ! k then Some r1 else loc u)) \<and>
                  (\<forall>k v. k < length p \<and> p ! k \<and> (\<forall>j<k. \<not> p ! j) \<and>
                     loc (t + int k) = Some v \<and> v \<noteq> PyNone \<longrightarrow> r1 = v))))"
proof -
  from assms obtain L' where sp: "smooth_patterns (locations D i) t patterns = Inr (L', 1)"
    and D': "D' = D\<lparr>locations := (locations D)(i := L')\<rparr>"
    by (auto simp: smooth_location_def split: sum.splits)
  from smooth_patterns_result [OF sp]
  have "\<exists>pre p post r1. patterns = pre @ p # post \<and>
        (\<forall>q\<in>set pre. q \<noteq> [] \<and>
           (\<exists>loc. locations D i = Some loc \<and> match_walk loc t q PyNone PyNone = None)) \<and>
        ((p = [] \<and> L' = locations D i) \<or>
         (\<exists>loc. locations D i = Some loc \<and> match_walk loc t p PyNone PyNone = Some r1 \<and>
                L' = Some (rewrite loc t p r1)))"
    by simp
  then obtain pre p post r1 where ps: "patterns = pre @ p # post"
    and pre: "\<forall>q\<in>set pre. q \<noteq> [] \<and>
               (\<exists>loc. locations D i = Some loc \<and> match_walk loc t q PyNone PyNone = None)"
    and p: "(p = [] \<and> L' = locations D i) \<or>
         (\<exists>loc. locations D i = Some loc \<and> match_walk loc t p PyNone PyNone = Some r1 \<and>
                L' = Some (rewrite loc t p r1))"
    by blast
  have a: "p = [] \<or>
               (\<exists>loc. locations D i = Some loc \<and> match_walk loc t p PyNone PyNone = Some r1)"
    using p by blast
  have b: "locations D i = None \<longrightarrow> locations D' i = None"
    using p D' by auto
  have c: "\<forall>loc. locations D i = Some loc \<longrightarrow>
               (\<exists>loc'. locations D' i = Some loc' \<and>
                  (\<forall>u. loc' u =
                     (if \<exists>k<length p. u = t + int k \<and> \<not> p ! k then Some r1 else loc u)) \<and>
                  (\<forall>k v. k < length p \<and> p ! k \<and> (\<forall>j<k. \<not> p ! j) \<and>
                     loc (t + int k) = Some v \<and> v \<noteq> PyNone \<longrightarrow> r1 = v))"
  proof (intro allI impI)
    fix loc assume loc: "locations D i = Some loc"
    from p show "\<exists>loc'. locations D' i = Some loc' \<and>
                  (\<forall>u. loc' u =
                     (if \<exists>k<length p. u = t + int k \<and> \<not> p ! k then Some r1 else loc u)) \<and>
                  (\<forall>k v. k < length p \<and> p ! k \<and> (\<forall>j<k. \<not> p ! j) \<and>
                     loc (t + int k) = Some v \<and> v \<noteq> PyNone \<longrightarrow> r1 = v)"
    proof
      assume "p = [] \<and> L' = locations D i"
      then show ?thesis using loc D' by simp
    next
      assume "\<exists>loc. locations D i = Some loc \<and> match_walk loc t p PyNone PyNone = Some r1 \<and>
                L' = Some (rewrite loc t p r1)"
      with loc have w: "match_walk loc t p PyNone PyNone = Some r1"
        and L': "L' = Some (rewrite loc t p r1)" by simp_all
      have "locations D' i = Some (rewrite loc t p r1)" using D' L' by simp
      moreover have "\<forall>u. rewrite loc t p r1 u =
                     (if \<exists>k<length p. u = t + int k \<and> \<not> p ! k then Some r1 else loc u)"
        by (simp add: rewrite_apply)
      moreover have "\<forall>k v. k < length p \<and> p ! k \<and> (\<forall>j<k. \<not> p ! j) \<and>
                     loc (t + int k) = Some v \<and> v \<noteq> PyNone \<longrightarrow> r1 = v"
        using match_walk_first_True [OF w] by blast
      ultimately show ?thesis by blast
    qed
  qed
  have d: "sequences D' = sequences D" "\<forall>j. j \<noteq> i \<longrightarrow> locations D' j = locations D j"
    using D' by simp_all
  show ?thesis
    by (intro conjI, rule d(1), rule d(2), rule exI [of _ pre], rule exI [of _ p],
        rule exI [of _ post], rule exI [of _ r1], intro conjI,
        rule ps, rule pre, rule a, rule b, rule c)
qed

theorem smooth_location_frame_witness:
  "smooth_location D_flicker 7 0 [[True, False, True, True], [True, True, False, True]]
     = Inr (D_smoothed, 1) \<and>
   sequences D_smoothed = sequences D_flicker \<and>
   locations D_smoothed 8 = locations D_flicker 8"
  using smooth_location_frame [OF smooth_D_flicker] smooth_D_flicker by simp

section \<open>Room sequences never shrink\<close>

text \<open>
  C9: a successful \<open>identify_location\<close> stores the returned room at \<open>t\<close> in the room
  sequence of receiver \<open>i\<close> (created empty when missing) and changes nothing else, so
  every room sequence keeps all its timestamps; a successful \<open>smooth_location\<close> leaves
  the set of timestamps of every room sequence as it was.
\<close>

theorem RoomSequence_never_shrinks:
  "(identify_location D i t k = Inr (D', r) \<longrightarrow>
      locations D' i = Some ((case locations D i of None \<Rightarrow> Map.empty | Some m \<Rightarrow> m)(t \<mapsto> PyInt r)) \<and>
      (\<forall>j. j \<noteq> i \<longrightarrow> locations D' j = locations D j) \<and>
      (\<forall>j seq. locations D j = Some seq \<longrightarrow>
         (\<exists>seq'. locations D' j = Some seq' \<and> dom seq \<subseteq> dom seq'))) \<and>
   (smooth_location D i t ps = Inr (D'', c) \<longrightarrow>
      (\<forall>j seq. locations D j = Some seq \<longrightarrow>
         (\<exists>seq'. locations D'' j = Some seq' \<and> dom seq' = dom seq)))"
proof (intro conjI impI)
  assume a: "identify_location D i t k = Inr (D', r)"
  then obtain sigs where D': "D' = D\<lparr>locations := (locations D)(i \<mapsto>
           (case locations D i of None \<Rightarrow> Map.empty | Some m \<Rightarrow> m)(t \<mapsto> PyInt r))\<rparr>"
    by (auto simp: identify_location_def identify_location_with_cases split: sum.splits)
  show "locations D' i = Some ((case locations D i of None \<Rightarrow> Map.empty | Some m \<Rightarrow> m)(t \<mapsto> PyInt r))"
    using D' by simp
  show "\<forall>j. j \<noteq> i \<longrightarrow> locations D' j = locations D j" using D' by simp
  show "\<forall>j seq. locations D j = Some seq \<longrightarrow>
         (\<exists>seq'. locations D' j = Some seq' \<and> dom seq \<subseteq> dom seq')"
    using D' by auto
next
  assume a: "smooth_location D i t ps = Inr (D'', c)"
  then obtain L' where sp: "smooth_patterns (locations D i) t ps = Inr (L', c)"
    and D'': "D'' = D\<lparr>locations := (locations D)(i := L')\<rparr>"
    by (auto simp: smooth_location_def split: sum.splits)
  show "\<forall>j seq. locations D j = Some seq \<longrightarrow>
         (\<exists>seq'. locations D'' j = Some seq' \<and> dom seq' = dom seq)"
  proof (intro allI impI)
    fix j seq assume j: "locations D j = Some seq"
    show "\<exists>seq'. locations D'' j = Some seq' \<and> dom seq' = dom seq"
    proof (cases "j = i")
      case True
      with sp j have "smooth_patterns (Some seq) t ps = Inr (L', c)" by simp
      from smooth_patterns_dom [OF this] True D'' show ?thesis by simp
    next
      case False
      with j D'' show ?thesis by simp
    qed
  qed
qed

theorem RoomSequence_never_shrinks_witness:
  "identify_location D_tie 1 100 [(0, 1)] =
     Inr (D_tie\<lparr>locations := [1 \<mapsto> [100 \<mapsto> PyInt 10050]]\<rparr>, 10050) \<and>
   (\<exists>seq'. locations (D_tie\<lparr>locations := [1 \<mapsto> [100 \<mapsto> PyInt 10050]]\<rparr>) 1 = Some seq' \<and>
      dom (Map.empty :: time \<rightharpoonup> pyval) \<subseteq> dom seq') \<and>
   smooth_location D_flicker 7 0 [[True, False, True, True], [True, True, False, True]]
     = Inr (D_smoothed, 1) \<and>
   (\<exists>seq'. locations D_smoothed 8 = Some seq' \<and> dom seq' = dom [0 \<mapsto> PyInt 6])"
proof -
  have l1: "locations D_tie 1 = Some Map.empty" by (simp add: D_tie_def)
  have l8: "locations D_flicker 8 = Some [0 \<mapsto> PyInt 6]" by (simp add: D_flicker_def)
  from RoomSequence_never_shrinks [where D = D_tie and i = 1 and t = 100 and k = "[(0, 1)]"
      and D' = "D_tie\<lparr>locations := [1 \<mapsto> [100 \<mapsto> PyInt 10050]]\<rparr>" and r = 10050]
    identify_location_D_tie l1
  have a: "\<exists>seq'. locations (D_tie\<lparr>locations := [1 \<mapsto> [100 \<mapsto> PyInt 10050]]\<rparr>) 1 = Some seq' \<and>
      dom (Map.empty :: time \<rightharpoonup> pyval) \<subseteq> dom seq'" by blast
  from RoomSequence_never_shrinks [where D = D_flicker and i = 7 and t = 0
      and ps = "[[True, False, True, True], [True, True, False, True]]"
      and D'' = D_smoothed and c = 1]
    smooth_D_flicker l8
  have b: "\<exists>seq'. locations D_smoothed 8 = Some seq' \<and> dom seq' = dom [0 \<mapsto> PyInt 6]"
    by blast
  from a b identify_location_D_tie smooth_D_flicker show ?thesis by blast
qed

section \<open>Termination of the smoothing loop\<close>

lemma smooth_loop_diverges:
  assumes "smooth_pass D i ts patterns 0 = Inr (D, c)" and "0 < c"
  shows "smooth_loop D i ts patterns = None"
proof (rule ccontr)
  assume "smooth_loop D i ts patterns \<noteq> None"
  then obtain y where y: "smooth_loop D i ts patterns = Some y" by blast
  have "\<not> (D = D \<and> i = i \<and> ts = ts \<and> patterns = patterns)"
  proof (rule smooth_loop.raw_induct
      [where P = "\<lambda>D' i' ts' ps' y'. \<not> (D' = D \<and> i' = i \<and> ts' = ts \<and> ps' = patterns)",
        OF _ y])
    fix f D' i' ts' ps' y'
    assume IH: "\<And>D' i' ts' ps' y'. f D' i' ts' ps' = Some y' \<Longrightarrow>
                  \<not> (D' = D \<and> i' = i \<and> ts' = ts \<and> ps' = patterns)"
      and st: "(case smooth_pass D' i' ts' ps' 0 of Inl e \<Rightarrow> Some (Inl e)
                | Inr Dc \<Rightarrow> if 0 < snd Dc then f (fst Dc) i' ts' ps'
                            else Some (Inr (fst Dc))) = Some y'"
    show "\<not> (D' = D \<and> i' = i \<and> ts' = ts \<and> ps' = patterns)"
    proof
      assume eq: "D' = D \<and> i' = i \<and> ts' = ts \<and> ps' = patterns"
      with st assms have "f D i ts patterns = Some y'" by simp
      from IH [OF this] show False by simp
    qed
  qed
  then show False by simp
qed

lemma alternations_finite: "finite (dom seq) \<Longrightarrow> finite (alternations seq)"
  by (rule finite_subset [of _ "dom seq"]) (auto simp: alternations_def)

lemma alternations_shrink:
  fixes loc loc' :: "time \<rightharpoonup> pyval"
  assumes F1: "\<And>u. t \<le> u \<Longrightarrow> u < t + L \<Longrightarrow> loc' u = Some x"
    and F2: "\<And>u. u < t \<or> t + L \<le> u \<Longrightarrow> loc' u = loc u"
    and F3: "loc t = Some x" "loc (t + L - 1) = Some x"
    and F4: "t \<le> u0" "u0 + 1 < t + L" "loc u0 = Some x" "loc (u0 + 1) = Some v" "v \<noteq> x"
  shows "alternations loc' \<subset> alternations loc"
proof
  show "alternations loc' \<subseteq> alternations loc"
  proof
    fix u assume u: "u \<in> alternations loc'"
    have L: "0 < L" using F4 by linarith
    consider (inside) "t \<le> u" "u + 1 < t + L" | (last) "u = t + L - 1" | (before) "u + 1 = t"
      | (outside) "u + 1 < t \<or> t + L \<le> u" by linarith
    then show "u \<in> alternations loc"
    proof cases
      case inside
      then have "loc' u = Some x" "loc' (u + 1) = Some x" by (auto intro: F1)
      with u show ?thesis by (simp add: alternations_def)
    next
      case last
      then have "loc' u = Some x" using L by (auto intro: F1)
      moreover have "loc' (u + 1) = loc (u + 1)" using last by (auto intro: F2)
      ultimately show ?thesis using u F3(2) last by (simp add: alternations_def)
    next
      case before
      then have "loc' (u + 1) = Some x" using L by (auto intro: F1)
      moreover have "loc' u = loc u" using before by (auto intro: F2)
      ultimately show ?thesis using u F3(1) before by (simp add: alternations_def)
    next
      case outside
      then have "loc' u = loc u" "loc' (u + 1) = loc (u + 1)" by (auto intro: F2)
      with u show ?thesis by (simp add: alternations_def)
    qed
  qed
  have "u0 \<in> alternations loc" using F4 by (simp add: alternations_def)
  moreover have "loc' u0 = Some x" "loc' (u0 + 1) = Some x" using F4 by (auto intro: F1)
  then have "u0 \<notin> alternations loc'" by (simp add: alternations_def)
  ultimately show "alternations loc' \<noteq> alternations loc" by blast
qed

lemma match_walk_values:
  "match_walk loc tc p (PyInt a) r2 = Some r \<Longrightarrow> k < length p \<Longrightarrow>
   \<exists>v. loc (tc + int k) = Some v \<and> (p ! k \<longrightarrow> v = PyInt a) \<and> (\<not> p ! k \<longrightarrow> v \<noteq> PyInt a)"
proof (induction p arbitrary: tc r2 k)
  case Nil
  then show ?case by simp
next
  case (Cons b bs)
  from Cons.prems(1) obtain cur where cur: "loc tc = Some cur"
    by (auto split: option.splits)
  show ?case
  proof (cases k)
    case 0
    with Cons.prems(1) cur show ?thesis
      by (auto simp: Let_def split: if_splits)
  next
    case (Suc j)
    from Cons.prems(1) cur obtain r2' where w: "match_walk loc (tc + 1) bs (PyInt a) r2' = Some r"
      by (auto simp: Let_def split: if_splits)
    from Cons.IH [OF w, of j] Suc Cons.prems(2) show ?thesis by (simp add: add.assoc)
  qed
qed

lemma flicker_match:
  assumes "flicker_pattern p" and "rooms_only loc"
    and "match_walk loc t p PyNone PyNone = Some r"
  shows "\<exists>a. r = PyInt a \<and>
           (\<forall>k<length p. \<exists>v. loc (t + int k) = Some v \<and>
              (p ! k \<longrightarrow> v = PyInt a) \<and> (\<not> p ! k \<longrightarrow> v \<noteq> PyInt a))"
proof -
  from assms(1) obtain bs where p: "p = True # bs"
    by (cases p) (auto simp: flicker_pattern_def)
  from assms(3) p obtain cur where cur: "loc t = Some cur" by (auto split: option.splits)
  with assms(2) have "cur \<noteq> PyNone" by (auto simp: rooms_only_def)
  then obtain a where a: "cur = PyInt a" by (cases cur) auto
  from assms(3) p cur a have w: "match_walk loc (t + 1) bs (PyInt a) PyNone = Some r"
    by (simp add: Let_def)
  from match_walk_bound [OF w] have r: "r = PyInt a" by simp
  have "\<forall>k<length p. \<exists>v. loc (t + int k) = Some v \<and>
              (p ! k \<longrightarrow> v = PyInt a) \<and> (\<not> p ! k \<longrightarrow> v \<noteq> PyInt a)"
  proof (intro allI impI)
    fix k assume k: "k < length p"
    show "\<exists>v. loc (t + int k) = Some v \<and>
              (p ! k \<longrightarrow> v = PyInt a) \<and> (\<not> p ! k \<longrightarrow> v \<noteq> PyInt a)"
    proof (cases k)
      case 0
      with p cur a show ?thesis by simp
    next
      case (Suc j)
      with k p have "j < length bs" by simp
      from match_walk_values [OF w this] Suc p show ?thesis by (simp add: add.assoc)
    qed
  qed
  with r show ?thesis by blast
qed

lemma first_False:
  assumes "False \<in> set p"
  shows "\<exists>k<length p. \<not> p ! k \<and> (\<forall>j<k. p ! j)"
proof -
  from assms obtain k where k: "k < length p \<and> \<not> p ! k" by (metis in_set_conv_nth)
  define k0 where "k0 = (LEAST k. k < length p \<and> \<not> p ! k)"
  have 1: "k0 < length p \<and> \<not> p ! k0" unfolding k0_def by (rule LeastI [of _ k]) (rule k)
  have 2: "\<forall>j<k0. p ! j"
  proof (intro allI impI)
    fix j assume j: "j < k0"
    then have "\<not> (j < length p \<and> \<not> p ! j)" unfolding k0_def by (rule not_less_Least)
    moreover have "j < length p" using j 1 by simp
    ultimately show "p ! j" by blast
  qed
  from 1 2 show ?thesis by blast
qed

lemma flicker_rewrite_shrinks:
  assumes fp: "flicker_pattern p" and ro: "rooms_only loc"
    and mw: "match_walk loc t p PyNone PyNone = Some r"
  shows "alternations (rewrite loc t p r) \<subset> alternations loc \<and>
         rooms_only (rewrite loc t p r) \<and> dom (rewrite loc t p r) = dom loc"
proof -
  from flicker_match [OF fp ro mw] obtain a where r: "r = PyInt a"
    and vals: "\<And>k. k < length p \<Longrightarrow> \<exists>v. loc (t + int k) = Some v \<and>
              (p ! k \<longrightarrow> v = PyInt a) \<and> (\<not> p ! k \<longrightarrow> v \<noteq> PyInt a)" by blast
  let ?loc' = "rewrite loc t p r"
  let ?L = "int (length p)"
  from fp have pne: "p \<noteq> []" and hd: "p ! 0" and lst: "p ! (length p - 1)"
    and F: "False \<in> set p"
    by (auto simp: flicker_pattern_def hd_conv_nth last_conv_nth)
  have F1: "?loc' u = Some (PyInt a)" if "t \<le> u" "u < t + ?L" for u
  proof -
    define k where "k = nat (u - t)"
    from that have k: "k < length p" "u = t + int k" by (auto simp: k_def)
    show ?thesis
    proof (cases "p ! k")
      case True
      with vals [OF k(1)] k(2) have "loc u = Some (PyInt a)" by auto
      then show ?thesis using r by (simp add: rewrite_apply)
    next
      case False
      with k have "\<exists>k<length p. u = t + int k \<and> \<not> p ! k" by blast
      then show ?thesis using r by (simp add: rewrite_apply)
    qed
  qed
  have F2: "?loc' u = loc u" if "u < t \<or> t + ?L \<le> u" for u
  proof -
    from that have "\<not> (\<exists>k<length p. u = t + int k \<and> \<not> p ! k)" by auto
    then show ?thesis unfolding rewrite_apply by (rule if_not_P)
  qed
  have F3a: "loc t = Some (PyInt a)"
    using vals [of 0] pne hd by auto
  have F3b: "loc (t + ?L - 1) = Some (PyInt a)"
  proof -
    have "length p - 1 < length p" using pne by simp
    from vals [OF this] lst have "loc (t + int (length p - 1)) = Some (PyInt a)" by auto
    moreover have "int (length p - 1) = ?L - 1" using pne
      by (simp add: of_nat_diff Suc_leI)
    moreover have "t + (?L - 1) = t + ?L - 1" by linarith
    ultimately show ?thesis by metis
  qed
  from first_False [OF F] obtain k0 where k0: "k0 < length p" "\<not> p ! k0" "\<forall>j<k0. p ! j"
    by blast
  with hd have pos: "0 < k0" by (cases k0) auto
  define u0 where "u0 = t + int (k0 - 1)"
  have u0: "u0 + 1 = t + int k0" using pos by (simp add: u0_def of_nat_diff Suc_leI)
  have "k0 - 1 < length p" "p ! (k0 - 1)" using k0 pos by auto
  with vals [of "k0 - 1"] have F4c: "loc u0 = Some (PyInt a)" by (auto simp: u0_def)
  from vals [OF k0(1)] k0(2) obtain v where F4d: "loc (u0 + 1) = Some v" "v \<noteq> PyInt a"
    unfolding u0 by auto
  have F4a: "t \<le> u0" by (simp add: u0_def)
  have F4b: "u0 + 1 < t + ?L" unfolding u0 using k0(1) by simp
  have sub: "alternations ?loc' \<subset> alternations loc"
    by (rule alternations_shrink [where t = t and L = ?L and x = "PyInt a" and ?u0.0 = u0 and v = v])
       (fact F1 F2 F3a F3b F4a F4b F4c F4d)+
  have "rooms_only ?loc'"
    using ro r by (simp add: rooms_only_def rewrite_apply)
  moreover have "dom ?loc' = dom loc" using mw by (rule dom_rewrite)
  ultimately show ?thesis using sub by simp
qed

lemma smooth_location_step:
  assumes "\<forall>p\<in>set ps. flicker_pattern p" and "locations D i = Some seq" and "rooms_only seq"
  shows "\<exists>D' c seq'. smooth_location D i t ps = Inr (D', c) \<and> locations D' i = Some seq' \<and>
           rooms_only seq' \<and> dom seq' = dom seq \<and>
           ((c = 0 \<and> seq' = seq) \<or> (c = 1 \<and> alternations seq' \<subset> alternations seq))"
proof -
  from smooth_patterns_total obtain L' c
    where sp: "smooth_patterns (Some seq) t ps = Inr (L', c)" by blast
  let ?D' = "D\<lparr>locations := (locations D)(i := L')\<rparr>"
  have sl: "smooth_location D i t ps = Inr (?D', c)"
    using sp assms(2) by (simp add: smooth_location_def)
  from smooth_patterns_result [OF sp]
  have "\<exists>seq'. L' = Some seq' \<and> rooms_only seq' \<and> dom seq' = dom seq \<and>
           ((c = 0 \<and> seq' = seq) \<or> (c = 1 \<and> alternations seq' \<subset> alternations seq))"
  proof
    assume "c = 0 \<and> L' = Some seq"
    with assms(3) show ?thesis by simp
  next
    assume "c = 1 \<and> (\<exists>pre p post r1. ps = pre @ p # post \<and>
        (\<forall>q\<in>set pre. q \<noteq> [] \<and> (\<exists>loc. Some seq = Some loc \<and> match_walk loc t q PyNone PyNone = None)) \<and>
        ((p = [] \<and> L' = Some seq) \<or>
         (\<exists>loc. Some seq = Some loc \<and> match_walk loc t p PyNone PyNone = Some r1 \<and>
                L' = Some (rewrite loc t p r1))))"
    then obtain pre p post r1 where c: "c = 1" and ps: "ps = pre @ p # post"
      and alt: "(p = [] \<and> L' = Some seq) \<or>
         (match_walk seq t p PyNone PyNone = Some r1 \<and> L' = Some (rewrite seq t p r1))"
      by auto
    from ps assms(1) have fp: "flicker_pattern p" by simp
    then have "p \<noteq> []" by (simp add: flicker_pattern_def)
    with alt have mw: "match_walk seq t p PyNone PyNone = Some r1"
      and L': "L' = Some (rewrite seq t p r1)" by simp_all
    from flicker_rewrite_shrinks [OF fp assms(3) mw] c L' show ?thesis by simp
  qed
  then obtain seq' where "L' = Some seq'" "rooms_only seq'" "dom seq' = dom seq"
    "(c = 0 \<and> seq' = seq) \<or> (c = 1 \<and> alternations seq' \<subset> alternations seq)" by blast
  moreover from this have "locations ?D' i = Some seq'" by simp
  ultimately show ?thesis using sl by blast
qed

lemma smooth_pass_step:
  assumes "\<forall>p\<in>set ps. flicker_pattern p"
  shows "locations D i = Some seq \<Longrightarrow> rooms_only seq \<Longrightarrow> finite (dom seq) \<Longrightarrow>
         \<exists>D' cnt' seq'. smooth_pass D i ts ps cnt = Inr (D', cnt') \<and>
           locations D' i = Some seq' \<and> rooms_only seq' \<and> dom seq' = dom seq \<and>
           ((cnt' = cnt \<and> card (alternations seq') \<le> card (alternations seq)) \<or>
            (cnt < cnt' \<and> card (alternations seq') < card (alternations seq)))"
proof (induction ts arbitrary: D seq cnt)
  case Nil
  then show ?case by simp
next
  case (Cons t ts)
  from smooth_location_step [OF assms Cons.prems(1,2), of t]
  obtain D1 c seq1 where sl: "smooth_location D i t ps = Inr (D1, c)"
    and l1: "locations D1 i = Some seq1" and ro1: "rooms_only seq1"
    and dom1: "dom seq1 = dom seq"
    and alt: "(c = 0 \<and> seq1 = seq) \<or> (c = 1 \<and> alternations seq1 \<subset> alternations seq)"
    by blast
  have fin1: "finite (dom seq1)" using dom1 Cons.prems(3) by simp
  from Cons.IH [OF l1 ro1 fin1, of "cnt + c"]
  obtain D' cnt' seq' where sp: "smooth_pass D1 i ts ps (cnt + c) = Inr (D', cnt')"
    and l': "locations D' i = Some seq'" and ro': "rooms_only seq'"
    and dom': "dom seq' = dom seq1"
    and alt': "(cnt' = cnt + c \<and> card (alternations seq') \<le> card (alternations seq1)) \<or>
            (cnt + c < cnt' \<and> card (alternations seq') < card (alternations seq1))"
    by blast
  have sp0: "smooth_pass D i (t # ts) ps cnt = Inr (D', cnt')" using sl sp by simp
  have le: "(c = 0 \<and> card (alternations seq1) \<le> card (alternations seq)) \<or>
            (c = 1 \<and> card (alternations seq1) < card (alternations seq))"
    using alt psubset_card_mono [OF alternations_finite [OF Cons.prems(3)], of "alternations seq1"]
    by auto
  have "(cnt' = cnt \<and> card (alternations seq') \<le> card (alternations seq)) \<or>
            (cnt < cnt' \<and> card (alternations seq') < card (alternations seq))"
    using le alt' by auto
  with sp0 l' ro' dom' dom1 show ?case by auto
qed

lemma smooth_loop_terminates:
  assumes "\<forall>p\<in>set ps. flicker_pattern p"
  shows "locations D i = Some seq \<Longrightarrow> rooms_only seq \<Longrightarrow> finite (dom seq) \<Longrightarrow>
         \<exists>D'. smooth_loop D i ts ps = Some (Inr D')"
proof (induction "card (alternations seq)" arbitrary: D seq rule: less_induct)
  case less
  from smooth_pass_step [OF assms less.prems, of ts 0]
  obtain D1 c seq1 where sp: "smooth_pass D i ts ps 0 = Inr (D1, c)"
    and l1: "locations D1 i = Some seq1" and ro1: "rooms_only seq1"
    and dom1: "dom seq1 = dom seq"
    and alt: "(c = 0 \<and> card (alternations seq1) \<le> card (alternations seq)) \<or>
            (0 < c \<and> card (alternations seq1) < card (alternations seq))"
    by blast
  show ?case
  proof (cases "c = 0")
    case True
    with sp have "smooth_loop D i ts ps = Some (Inr D1)"
      by (subst smooth_loop.simps) simp
    then show ?thesis by blast
  next
    case False
    with alt have lt: "card (alternations seq1) < card (alternations seq)" and c: "0 < c" by auto
    have fin1: "finite (dom seq1)" using dom1 less.prems(3) by simp
    from less.hyps [OF lt l1 ro1 fin1] obtain D' where "smooth_loop D1 i ts ps = Some (Inr D')"
      by blast
    with sp c have "smooth_loop D i ts ps = Some (Inr D')"
      by (subst smooth_loop.simps) simp
    then show ?thesis by blast
  qed
qed

text \<open>
  C7, as amended: when every pattern starts and ends with True and has a False in between
  (as the two patterns of the main program do), and the room sequence of the receiver is
  finite and holds rooms only, the smoothing loop over any list of timestamps
  terminates without an error, and every correction that \<open>smooth_location\<close> applies
  strictly reduces the number of alternations of the room sequence.
\<close>

theorem smoothing_loop_terminates:
  assumes "\<forall>p\<in>set ps. flicker_pattern p" and "locations D i = Some seq"
    and "rooms_only seq" and "finite (dom seq)"
  shows "(\<exists>D'. smooth_loop D i ts ps = Some (Inr D')) \<and>
         (\<forall>t D1. smooth_location D i t ps = Inr (D1, 1) \<longrightarrow>
            (\<exists>seq1. locations D1 i = Some seq1 \<and>
               card (alternations seq1) < card (alternations seq)))"
proof
  show "\<exists>D'. smooth_loop D i ts ps = Some (Inr D')"
    using smooth_loop_terminates [OF assms] .
  show "\<forall>t D1. smooth_location D i t ps = Inr (D1, 1) \<longrightarrow>
            (\<exists>seq1. locations D1 i = Some seq1 \<and>
               card (alternations seq1) < card (alternations seq))"
  proof (intro allI impI)
    fix t D1 assume sl: "smooth_location D i t ps = Inr (D1, 1)"
    from smooth_location_step [OF assms(1-3), of t] sl
    obtain seq1 where "locations D1 i = Some seq1" "alternations seq1 \<subset> alternations seq"
      by auto
    with psubset_card_mono [OF alternations_finite [OF assms(4)]]
    show "\<exists>seq1. locations D1 i = Some seq1 \<and>
               card (alternations seq1) < card (alternations seq)" by blast
  qed
qed

theorem smoothing_loop_terminates_witness:
  "\<exists>D'. smooth_loop D_flicker 7 [0, 1]
          [[True, False, True, True], [True, True, False, True]] = Some (Inr D')"
proof -
  let ?seq = "[0 \<mapsto> PyInt 5, 1 \<mapsto> PyInt 6, 2 \<mapsto> PyInt 5, 3 \<mapsto> PyInt 5] :: time \<rightharpoonup> pyval"
  have 1: "\<forall>p\<in>set [[True, False, True, True], [True, True, False, True]]. flicker_pattern p"
    by (simp add: flicker_pattern_def)
  have 2: "locations D_flicker 7 = Some ?seq" by (simp add: D_flicker_def)
  have 3: "rooms_only ?seq" by (simp add: rooms_only_def)
  have 4: "finite (dom ?seq)" by simp
  from smoothing_loop_terminates [OF 1 2 3 4] show ?thesis by blast
qed

text \<open>
  With the single pattern \<open>(True,)\<close>, every pass over the timestamp 0 counts a correction
  and changes nothing: the loop never ends.
\<close>

theorem smooth_loop_single_True_diverges:
  "smooth_loop D_single 7 [0] [[True]] = None"
proof -
  have "(locations D_single)(7 \<mapsto> [0 \<mapsto> PyInt 5]) = locations D_single"
    by (simp add: D_single_def)
  then have "smooth_location D_single 7 0 [[True]] = Inr (D_single, 1)"
    by (simp add: smooth_location_def D_single_def)
  then have "smooth_pass D_single 7 [0] [[True]] 0 = Inr (D_single, 1)" by simp
  then show ?thesis by (rule smooth_loop_diverges) simp
qed

end
